theory Spec2Isabelle
  imports Main
begin

section \<open>Errors\<close>

text \<open>
  The exceptions the two-level table can raise, as values. \<open>TypeError\<close> stands for the
  failure Python would report on subscripting \<open>None\<close> or unpacking a result of the
  wrong shape; the proofs below show that it is never produced on a table whose probe
  succeeded.
\<close>

datatype error = KeyError | FullError | ZeroDivisionError | AttributeError | IndexError | TypeError

section \<open>The single-key probing table (collaborator)\<close>

text \<open>
  Modelled from the spec: the class \<open>LinearProbeTable\<close> of
  \<open>data_structures.hash_table\<close> is imported by \<open>double_key_table.py\<close> but is not among
  the source files. Section 6 of the specification gives its contract: \<open>get\<close> fails
  with NotFound if the key is absent; \<open>set\<close> inserts or overwrites and fails with
  TableFull if no schedule capacity remains; \<open>delete\<close> fails with NotFound if absent;
  \<open>is_empty\<close>, \<open>keys\<close>, \<open>values\<close>. The model keeps the entries in a list (the
  table's native order), a position being an index into that list, and the capacity
  schedule the table was created with. The largest capacity of the schedule bounds the
  number of entries.
\<close>

record 'v lpt =
  lpt_array :: "(string \<times> 'v) list"
  lpt_sizes :: "nat list"

definition LinearProbeTable :: "nat list \<Rightarrow> 'v lpt" where
  "LinearProbeTable sizes = \<lparr>lpt_array = [], lpt_sizes = sizes\<rparr>"

definition lpt_capacity :: "nat list \<Rightarrow> nat" where
  "lpt_capacity sizes = fold max sizes 0"

fun index_of :: "string \<Rightarrow> (string \<times> 'v) list \<Rightarrow> nat option" where
  "index_of key [] = None"
| "index_of key ((k, v) # rest) =
     (if k = key then Some 0 else map_option Suc (index_of key rest))"

definition lpt_linear_probe :: "'v lpt \<Rightarrow> string \<Rightarrow> bool \<Rightarrow> error + nat" where
  "lpt_linear_probe tbl key is_insert =
     (case index_of key (lpt_array tbl) of
        Some i \<Rightarrow> Inr i
      | None \<Rightarrow>
          if is_insert then
            (if length (lpt_array tbl) < lpt_capacity (lpt_sizes tbl)
             then Inr (length (lpt_array tbl)) else Inl FullError)
          else Inl KeyError)"

definition lpt_setitem :: "'v lpt \<Rightarrow> string \<Rightarrow> 'v \<Rightarrow> error + 'v lpt" where
  "lpt_setitem tbl key data =
     (case lpt_linear_probe tbl key True of
        Inl e \<Rightarrow> Inl e
      | Inr i \<Rightarrow>
          Inr (tbl\<lparr>lpt_array :=
                 (if i < length (lpt_array tbl) then (lpt_array tbl)[i := (key, data)]
                  else lpt_array tbl @ [(key, data)])\<rparr>))"

definition lpt_delitem :: "'v lpt \<Rightarrow> string \<Rightarrow> error + 'v lpt" where
  "lpt_delitem tbl key =
     (case lpt_linear_probe tbl key False of
        Inl e \<Rightarrow> Inl e
      | Inr i \<Rightarrow> Inr (tbl\<lparr>lpt_array := filter (\<lambda>kv. fst kv \<noteq> key) (lpt_array tbl)\<rparr>))"

definition lpt_is_empty :: "'v lpt \<Rightarrow> bool" where
  "lpt_is_empty tbl = (lpt_array tbl = [])"

definition lpt_keys :: "'v lpt \<Rightarrow> string list" where
  "lpt_keys tbl = map fst (lpt_array tbl)"

definition lpt_values :: "'v lpt \<Rightarrow> 'v list" where
  "lpt_values tbl = map snd (lpt_array tbl)"

section \<open>The two-level table\<close>

text \<open>
  The fields of \<open>DoubleKeyTable\<close>. A slot of \<open>array\<close> is \<open>None\<close> or the tuple
  \<open>(key1, nested table)\<close>. Nested tables are owned by their slot (no two slots alias
  one), so an update of a nested table is written back into its slot.
  \<open>ArrayR n\<close> is the referential array of length \<open>n\<close>, all \<open>None\<close>.
\<close>

record 'v dkt =
  TABLE_SIZES :: "nat list"
  internal_sizes :: "nat list"
  size_index :: nat
  array :: "(string \<times> 'v lpt) option list"
  count :: int

definition DEFAULT_TABLE_SIZES :: "nat list" where
  "DEFAULT_TABLE_SIZES =
     [5, 13, 29, 53, 97, 193, 389, 769, 1543, 3079, 6151, 12289, 24593, 49157, 98317,
      196613, 393241, 786433, 1572869]"

definition HASH_BASE :: nat where
  "HASH_BASE = 31"

definition ArrayR :: "nat \<Rightarrow> 'a option list" where
  "ArrayR n = replicate n None"

definition init :: "nat list option \<Rightarrow> nat list option \<Rightarrow> error + 'v dkt" where
  "init sizes isizes =
     (let ts = (case sizes of Some s \<Rightarrow> s | None \<Rightarrow> DEFAULT_TABLE_SIZES);
          ins = (case isizes of Some s \<Rightarrow> s | None \<Rightarrow> ts)
      in if ts = [] then Inl IndexError
         else Inr \<lparr>TABLE_SIZES = ts, internal_sizes = ins, size_index = 0,
                   array = ArrayR (ts ! 0), count = 0\<rparr>)"

definition table_size :: "'v dkt \<Rightarrow> nat" where
  "table_size t = length (array t)"

definition len :: "'v dkt \<Rightarrow> int" where
  "len t = count t"

subsection \<open>Hashing\<close>

text \<open>
  The loop shared by \<open>hash1\<close> and \<open>hash2\<close>, over the capacity \<open>n\<close> of the table
  that is hashed into. All operands are non-negative, so Python's \<open>%\<close> is \<open>mod\<close> on
  \<open>nat\<close>; a zero divisor raises. With \<open>n = 0\<close> the first statement of the body
  divides by zero, with \<open>n = 1\<close> the second one does.
\<close>

fun hash_loop :: "nat \<Rightarrow> string \<Rightarrow> nat \<Rightarrow> nat \<Rightarrow> error + nat" where
  "hash_loop n [] val a = Inr val"
| "hash_loop n (c # cs) val a =
     (if n = 0 then Inl ZeroDivisionError
      else if n - 1 = 0 then Inl ZeroDivisionError
      else hash_loop n cs ((of_char c + a * val) mod n) (a * HASH_BASE mod (n - 1)))"

definition hash1 :: "'v dkt \<Rightarrow> string \<Rightarrow> error + nat" where
  "hash1 t key = hash_loop (table_size t) key 0 31417"

text \<open>\<open>hash2\<close> reads the capacity of the nested table, passed here as \<open>sub_table_size\<close>.\<close>

definition hash2 :: "string \<Rightarrow> nat \<Rightarrow> error + nat" where
  "hash2 key sub_table_size = hash_loop sub_table_size key 0 31417"

subsection \<open>Probing\<close>

datatype position = Single nat | Double nat nat

text \<open>
  The body of \<open>_linear_probe\<close>: \<open>fuel\<close> counts the remaining iterations of
  \<open>for _ in range(self.table_size)\<close>. The table is returned with the result because an
  insert that meets an empty slot with a second key writes a fresh nested table there.
\<close>

fun probe_loop ::
  "'v dkt \<Rightarrow> string \<Rightarrow> string option \<Rightarrow> bool \<Rightarrow> nat \<Rightarrow> nat \<Rightarrow> (error + position) \<times> 'v dkt"
where
  "probe_loop t key1 key2 is_insert dkt_position 0 =
     (if is_insert then (Inl FullError, t) else (Inl KeyError, t))"
| "probe_loop t key1 key2 is_insert dkt_position (Suc fuel) =
     (case array t ! dkt_position of
        None \<Rightarrow>
          if \<not> is_insert then (Inl KeyError, t)
          else
            (case key2 of
               None \<Rightarrow> (Inr (Single dkt_position), t)
             | Some k2 \<Rightarrow>
                 let hash_table = LinearProbeTable (internal_sizes t);
                     t' = t\<lparr>array := (array t)[dkt_position := Some (key1, hash_table)]\<rparr>
                 in (case lpt_linear_probe hash_table k2 is_insert of
                       Inl e \<Rightarrow> (Inl e, t')
                     | Inr lpt_position \<Rightarrow> (Inr (Double dkt_position lpt_position), t')))
      | Some (k, hash_table) \<Rightarrow>
          if k = key1 then
            (case key2 of
               None \<Rightarrow> (Inr (Single dkt_position), t)
             | Some k2 \<Rightarrow>
                 (case lpt_linear_probe hash_table k2 is_insert of
                    Inl e \<Rightarrow> (Inl e, t)
                  | Inr lpt_position \<Rightarrow> (Inr (Double dkt_position lpt_position), t)))
          else probe_loop t key1 key2 is_insert ((dkt_position + 1) mod table_size t) fuel)"

definition linear_probe ::
  "'v dkt \<Rightarrow> string \<Rightarrow> string option \<Rightarrow> bool \<Rightarrow> (error + position) \<times> 'v dkt"
where
  "linear_probe t key1 key2 is_insert =
     (case hash1 t key1 of
        Inl e \<Rightarrow> (Inl e, t)
      | Inr dkt_position \<Rightarrow> probe_loop t key1 key2 is_insert dkt_position (table_size t))"

subsection \<open>Resize\<close>

text \<open>
  The loop of \<open>_rehash\<close> over the old array: every occupied slot is re-inserted at
  the position a probe with \<open>is_insert = True\<close> and no second key returns.
\<close>

fun rehash_loop ::
  "(string \<times> 'v lpt) option list \<Rightarrow> 'v dkt \<Rightarrow> (error + unit) \<times> 'v dkt"
where
  "rehash_loop [] t = (Inr (), t)"
| "rehash_loop (None # rest) t = rehash_loop rest t"
| "rehash_loop (Some (key, tbl) # rest) t =
     (case linear_probe t key None True of
        (Inl e, t1) \<Rightarrow> (Inl e, t1)
      | (Inr (Single pos), t1) \<Rightarrow>
          rehash_loop rest (t1\<lparr>array := (array t1)[pos := Some (key, tbl)]\<rparr>)
      | (Inr (Double pos pos2), t1) \<Rightarrow> (Inl TypeError, t1))"

definition rehash :: "'v dkt \<Rightarrow> (error + unit) \<times> 'v dkt" where
  "rehash t =
     (let old_array = array t;
          t1 = t\<lparr>size_index := size_index t + 1\<rparr>
      in if size_index t1 \<ge> length (TABLE_SIZES t1) then (Inr (), t1)
         else
           rehash_loop old_array
             (t1\<lparr>array := ArrayR (TABLE_SIZES t1 ! size_index t1), count := 0\<rparr>))"

subsection \<open>Lookup, insertion, deletion\<close>

definition getitem :: "'v dkt \<Rightarrow> string \<times> string \<Rightarrow> (error + 'v) \<times> 'v dkt" where
  "getitem t key =
     (case linear_probe t (fst key) (Some (snd key)) False of
        (Inl e, t1) \<Rightarrow> (Inl e, t1)
      | (Inr (Single position1), t1) \<Rightarrow> (Inl TypeError, t1)
      | (Inr (Double position1 position2), t1) \<Rightarrow>
          (case array t1 ! position1 of
             None \<Rightarrow> (Inl TypeError, t1)
           | Some (k, sub_table) \<Rightarrow> (Inr (snd (lpt_array sub_table ! position2)), t1)))"

definition contains :: "'v dkt \<Rightarrow> string \<times> string \<Rightarrow> (error + bool) \<times> 'v dkt" where
  "contains t key =
     (case getitem t key of
        (Inl KeyError, t1) \<Rightarrow> (Inr False, t1)
      | (Inl e, t1) \<Rightarrow> (Inl e, t1)
      | (Inr v, t1) \<Rightarrow> (Inr True, t1))"

text \<open>
  \<open>len(self) > self.table_size / 2\<close> compares an integer with a true quotient; over
  the integers it is \<open>2 * len > table_size\<close>.
\<close>

definition setitem :: "'v dkt \<Rightarrow> string \<times> string \<Rightarrow> 'v \<Rightarrow> (error + unit) \<times> 'v dkt" where
  "setitem t key data =
     (case linear_probe t (fst key) (Some (snd key)) True of
        (Inl e, t1) \<Rightarrow> (Inl e, t1)
      | (Inr (Single position1), t1) \<Rightarrow> (Inl TypeError, t1)
      | (Inr (Double position1 position2), t1) \<Rightarrow>
          (case array t1 ! position1 of
             None \<Rightarrow> (Inl TypeError, t1)
           | Some (k, sub_table) \<Rightarrow>
               let t2 = (if lpt_is_empty sub_table then t1\<lparr>count := count t1 + 1\<rparr> else t1)
               in (case lpt_setitem sub_table (snd key) data of
                     Inl e \<Rightarrow> (Inl e, t2)
                   | Inr sub_table' \<Rightarrow>
                       let t3 = t2\<lparr>array := (array t2)[position1 := Some (k, sub_table')]\<rparr>
                       in if 2 * len t3 > int (table_size t3) then rehash t3
                          else (Inr (), t3))))"

text \<open>
  One turn of the cluster-repair loop of \<open>__delitem__\<close>: \<open>Inl\<close> when the loop is
  left (the slot is empty, or the probe raised), \<open>Inr\<close> with the table and the next
  position otherwise.
\<close>

definition repair_step ::
  "'v dkt \<Rightarrow> nat \<Rightarrow> ((error + unit) \<times> 'v dkt) + ('v dkt \<times> nat)"
where
  "repair_step t curr_pos =
     (case array t ! curr_pos of
        None \<Rightarrow> Inl (Inr (), t)
      | Some (k, tbl) \<Rightarrow>
          let t1 = t\<lparr>array := (array t)[curr_pos := None]\<rparr>
          in (case linear_probe t1 k None True of
                (Inl e, t2) \<Rightarrow> Inl (Inl e, t2)
              | (Inr (Single newpos), t2) \<Rightarrow>
                  Inr (t2\<lparr>array := (array t2)[newpos := Some (k, tbl)]\<rparr>,
                       (curr_pos + 1) mod table_size t2)
              | (Inr (Double newpos pos2), t2) \<Rightarrow> Inl (Inl TypeError, t2)))"

text \<open>The \<open>while self.array[curr_pos]\<close> loop; \<open>None\<close> is "does not return".\<close>

partial_function (option) repair ::
  "'v dkt \<Rightarrow> nat \<Rightarrow> ((error + unit) \<times> 'v dkt) option"
where
  "repair t curr_pos =
     (case repair_step t curr_pos of
        Inl r \<Rightarrow> Some r
      | Inr (t', next_pos) \<Rightarrow> repair t' next_pos)"

declare repair.simps [code]

definition delitem :: "'v dkt \<Rightarrow> string \<times> string \<Rightarrow> ((error + unit) \<times> 'v dkt) option" where
  "delitem t key =
     (case linear_probe t (fst key) (Some (snd key)) False of
        (Inl e, t1) \<Rightarrow> Some (Inl e, t1)
      | (Inr (Single dkt_pos), t1) \<Rightarrow> Some (Inl TypeError, t1)
      | (Inr (Double dkt_pos value_pos), t1) \<Rightarrow>
          (case array t1 ! dkt_pos of
             None \<Rightarrow> Some (Inl TypeError, t1)
           | Some (k, hash_table) \<Rightarrow>
               (case lpt_delitem hash_table (snd key) of
                  Inl e \<Rightarrow> Some (Inl e, t1)
                | Inr hash_table' \<Rightarrow>
                    let t2 = t1\<lparr>array := (array t1)[dkt_pos := Some (k, hash_table')]\<rparr>
                    in if lpt_is_empty hash_table' then
                         (case linear_probe t2 (fst key) None False of
                            (Inl e, t3) \<Rightarrow> Some (Inl e, t3)
                          | (Inr (Double p1 p2), t3) \<Rightarrow> Some (Inl TypeError, t3)
                          | (Inr (Single curr_pos), t3) \<Rightarrow>
                              let t4 = t3\<lparr>array := (array t3)[curr_pos := None],
                                           count := count t3 - 1\<rparr>
                              in repair t4 ((curr_pos + 1) mod table_size t4))
                       else Some (Inr (), t2))))"

subsection \<open>Enumeration\<close>

definition keys :: "'v dkt \<Rightarrow> string option \<Rightarrow> (error + string list) \<times> 'v dkt" where
  "keys t key =
     (case key of
        None \<Rightarrow> (Inr (map fst (List.map_filter id (array t))), t)
      | Some k1 \<Rightarrow>
          (case linear_probe t k1 None False of
             (Inl e, t1) \<Rightarrow> (Inl e, t1)
           | (Inr (Double p1 p2), t1) \<Rightarrow> (Inl TypeError, t1)
           | (Inr (Single pos), t1) \<Rightarrow>
               (case array t1 ! pos of
                  None \<Rightarrow> (Inl TypeError, t1)
                | Some tpl_entry \<Rightarrow> (Inr (lpt_keys (snd tpl_entry)), t1))))"

text \<open>
  \<open>iter_keys\<close> with a first key calls \<open>.keys()\<close> on \<open>tpl_entry[0]\<close>, which is the
  first key itself, a string: the attribute lookup fails.
\<close>

definition iter_keys :: "'v dkt \<Rightarrow> string option \<Rightarrow> (error + string list) \<times> 'v dkt" where
  "iter_keys t key =
     (case key of
        None \<Rightarrow> (Inr (map fst (List.map_filter id (array t))), t)
      | Some k1 \<Rightarrow>
          (case linear_probe t k1 None False of
             (Inl e, t1) \<Rightarrow> (Inl e, t1)
           | (Inr (Double p1 p2), t1) \<Rightarrow> (Inl TypeError, t1)
           | (Inr (Single pos), t1) \<Rightarrow>
               (case array t1 ! pos of
                  None \<Rightarrow> (Inl TypeError, t1)
                | Some tpl_entry \<Rightarrow> (Inl AttributeError, t1))))"

text \<open>
  The loop of \<open>values()\<close> without a first key: for every first key, in slot order,
  the values of its nested table are appended.
\<close>

fun values_loop :: "'v dkt \<Rightarrow> string list \<Rightarrow> 'v list \<Rightarrow> (error + 'v list) \<times> 'v dkt" where
  "values_loop t [] res = (Inr res, t)"
| "values_loop t (k # ks) res =
     (case linear_probe t k None False of
        (Inl e, t1) \<Rightarrow> (Inl e, t1)
      | (Inr (Double p1 p2), t1) \<Rightarrow> (Inl TypeError, t1)
      | (Inr (Single pos), t1) \<Rightarrow>
          (case array t1 ! pos of
             None \<Rightarrow> (Inl TypeError, t1)
           | Some tpl_entry \<Rightarrow> values_loop t1 ks (res @ lpt_values (snd tpl_entry))))"

definition dkt_values :: "'v dkt \<Rightarrow> string option \<Rightarrow> (error + 'v list) \<times> 'v dkt" where
  "dkt_values t key =
     (case key of
        None \<Rightarrow>
          (case keys t None of
             (Inl e, t1) \<Rightarrow> (Inl e, t1)
           | (Inr ks, t1) \<Rightarrow> values_loop t1 ks [])
      | Some k1 \<Rightarrow>
          (case linear_probe t k1 None False of
             (Inl e, t1) \<Rightarrow> (Inl e, t1)
           | (Inr (Double p1 p2), t1) \<Rightarrow> (Inl TypeError, t1)
           | (Inr (Single pos), t1) \<Rightarrow>
               (case array t1 ! pos of
                  None \<Rightarrow> (Inl TypeError, t1)
                | Some tpl_entry \<Rightarrow> (Inr (lpt_values (snd tpl_entry)), t1))))"

subsection \<open>Sequences of operations\<close>

text \<open>
  A client's calls on one table. A call that raises leaves the table as it was at the
  raise, and the next call works on that table. \<open>run\<close> is \<open>None\<close> when a call does
  not return.
\<close>

datatype 'v operation =
    SetItem string string 'v
  | DelItem string string
  | GetItem string string
  | Contains string string
  | Keys "string option"
  | Values "string option"

fun apply_operation :: "'v dkt \<Rightarrow> 'v operation \<Rightarrow> 'v dkt option" where
  "apply_operation t (SetItem k1 k2 v) = Some (snd (setitem t (k1, k2) v))"
| "apply_operation t (DelItem k1 k2) = map_option snd (delitem t (k1, k2))"
| "apply_operation t (GetItem k1 k2) = Some (snd (getitem t (k1, k2)))"
| "apply_operation t (Contains k1 k2) = Some (snd (contains t (k1, k2)))"
| "apply_operation t (Keys k) = Some (snd (keys t k))"
| "apply_operation t (Values k) = Some (snd (dkt_values t k))"

fun run :: "'v dkt \<Rightarrow> 'v operation list \<Rightarrow> 'v dkt option" where
  "run t [] = Some t"
| "run t (x # xs) = (case apply_operation t x of None \<Rightarrow> None | Some t' \<Rightarrow> run t' xs)"

text \<open>A sequence of inserts, each of which returns; the first that raises ends it.\<close>

fun set_all :: "'v dkt \<Rightarrow> ((string \<times> string) \<times> 'v) list \<Rightarrow> (error + unit) \<times> 'v dkt" where
  "set_all t [] = (Inr (), t)"
| "set_all t (kv # rest) =
     (case setitem t (fst kv) (snd kv) of
        (Inl e, t') \<Rightarrow> (Inl e, t')
      | (Inr u, t') \<Rightarrow> set_all t' rest)"

text \<open>The number of occupied top-level slots, and the first keys present.\<close>

definition occupied :: "'v dkt \<Rightarrow> nat" where
  "occupied t = length (filter (\<lambda>slot. slot \<noteq> None) (array t))"

definition first_keys :: "'v dkt \<Rightarrow> string list" where
  "first_keys t = map fst (List.map_filter id (array t))"

datatype scan_result = Exhausted | Free nat | Match nat

fun scan :: "(string \<times> 'a) option list \<Rightarrow> string \<Rightarrow> nat \<Rightarrow> nat \<Rightarrow> scan_result" where
  "scan A k pos 0 = Exhausted"
| "scan A k pos (Suc f) =
     (case A ! pos of
        None \<Rightarrow> Free pos
      | Some e \<Rightarrow> if fst e = k then Match pos else scan A k ((pos + 1) mod length A) f)"

definition home :: "nat \<Rightarrow> string \<Rightarrow> error + nat" where
  "home n k = hash_loop n k 0 31417"

definition other :: "(string \<times> 'a) option list \<Rightarrow> string \<Rightarrow> nat \<Rightarrow> bool" where
  "other A k p = (case A ! p of None \<Rightarrow> False | Some e \<Rightarrow> fst e \<noteq> k)"

definition path :: "(string \<times> 'a) option list \<Rightarrow> string \<Rightarrow> nat \<Rightarrow> nat \<Rightarrow> bool" where
  "path A k pos j = (\<forall>i<j. other A k ((pos + i) mod length A))"

definition placed :: "(string \<times> 'a) option list \<Rightarrow> nat \<Rightarrow> bool" where
  "placed A p =
     (case A ! p of
        None \<Rightarrow> True
      | Some e \<Rightarrow>
          (case home (length A) (fst e) of
             Inl x \<Rightarrow> False
           | Inr h \<Rightarrow> scan A (fst e) h (length A) = Match p))"

definition probe_inv :: "(string \<times> 'a) option list \<Rightarrow> bool" where
  "probe_inv A = (\<forall>p<length A. placed A p)"

definition uniq :: "(string \<times> 'a) option list \<Rightarrow> bool" where
  "uniq A =
     (\<forall>p<length A. \<forall>q<length A. \<forall>e e'.
        A ! p = Some e \<longrightarrow> A ! q = Some e' \<longrightarrow> fst e = fst e' \<longrightarrow> p = q)"

definition hashable :: "(string \<times> 'a) option list \<Rightarrow> bool" where
  "hashable A = (\<forall>e. Some e \<in> set A \<longrightarrow> (\<exists>h. home (length A) (fst e) = Inr h))"

definition run_from :: "(string \<times> 'a) option list \<Rightarrow> nat \<Rightarrow> nat \<Rightarrow> bool" where
  "run_from A w p =
     (\<exists>i<length A. p = (w + i) mod length A \<and> (\<forall>j\<le>i. A ! ((w + j) mod length A) \<noteq> None))"

definition weak_inv :: "(string \<times> 'a) option list \<Rightarrow> nat \<Rightarrow> bool" where
  "weak_inv A w = (\<forall>p<length A. \<not> run_from A w p \<longrightarrow> placed A p)"

definition ents :: "(string \<times> 'a) option list \<Rightarrow> (string \<times> 'a) set" where
  "ents A = {e. Some e \<in> set A}"

definition disp :: "(string \<times> 'a) option list \<Rightarrow> nat \<Rightarrow> nat" where
  "disp A p =
     (case A ! p of
        None \<Rightarrow> 0
      | Some e \<Rightarrow>
          (case home (length A) (fst e) of
             Inl x \<Rightarrow> 0
           | Inr h \<Rightarrow> (p + length A - h) mod length A))"

definition total_disp :: "(string \<times> 'a) option list \<Rightarrow> nat" where
  "total_disp A = (\<Sum>p<length A. disp A p)"

definition repaired :: "'v dkt \<Rightarrow> 'v dkt \<Rightarrow> bool" where
  "repaired t t' \<longleftrightarrow>
     probe_inv (array t') \<and> ents (array t') = ents (array t) \<and>
     length (array t') = length (array t) \<and> t' = t\<lparr>array := array t'\<rparr>"

definition walk_ok :: "'v dkt \<Rightarrow> nat \<Rightarrow> nat \<Rightarrow> bool" where
  "walk_ok t w i \<longleftrightarrow>
     uniq (array t) \<and> hashable (array t) \<and> weak_inv (array t) w \<and>
     w < length (array t) \<and> i < length (array t) \<and>
     array t ! ((w + i) mod length (array t)) = None"

definition holds :: "'v dkt \<Rightarrow> string \<Rightarrow> string \<Rightarrow> 'v \<Rightarrow> bool" where
  "holds t k1 k2 v \<longleftrightarrow>
     (\<exists>tbl. (k1, tbl) \<in> ents (array t) \<and> map_of (lpt_array tbl) k2 = Some v)"

fun ukeys :: "(string \<times> 'a) option list \<Rightarrow> bool" where
  "ukeys [] = True"
| "ukeys (None # rest) = ukeys rest"
| "ukeys (Some e # rest) = (fst e \<notin> fst ` ents rest \<and> ukeys rest)"

lemma hash_loop_range:
  "2 \<le> n \<Longrightarrow> \<exists>h. hash_loop n key val a = Inr h \<and> (val < n \<longrightarrow> h < n)"
proof (induction key arbitrary: val a)
  case Nil
  then show ?case by simp
next
  case (Cons c cs)
  from Cons.prems have pos: "(of_char c + a * val) mod n < n" by simp
  from Cons.IH [OF Cons.prems, of "(of_char c + a * val) mod n" "a * HASH_BASE mod (n - 1)"]
  obtain h where "hash_loop n cs ((of_char c + a * val) mod n) (a * HASH_BASE mod (n - 1)) = Inr h"
    and "h < n" using pos by blast
  with Cons.prems show ?case by simp
qed

lemma hash_loop_capacity_one:
  "key \<noteq> [] \<Longrightarrow> hash_loop (Suc 0) key val a = Inl ZeroDivisionError"
  by (cases key) simp_all

lemma hash_loop_ok_capacity:
  "hash_loop n key val a = Inr h \<Longrightarrow> key \<noteq> [] \<Longrightarrow> 2 \<le> n"
  by (cases key) (auto split: if_splits)

lemma home_lt: 
  assumes "home n k = Inr h" and "0 < n" 
  shows "h < n"
proof (cases k)
  case Nil
  with assms show ?thesis by (simp add: home_def)
next
  case (Cons c cs)
  from assms(1) have "hash_loop n k 0 31417 = Inr h" unfolding home_def .
  then have "2 \<le> n" by (rule hash_loop_ok_capacity) (simp add: Cons)
  from hash_loop_range [OF this, of k 0 31417] assms show ?thesis
    by (auto simp: home_def)
qed

lemma hash1_home: "hash1 t k = home (table_size t) k"
  by (simp add: hash1_def home_def)

lemma next_lt: "pos < (n::nat) \<Longrightarrow> Suc pos mod n < n"
  by (cases n) simp_all

lemma path_0 [simp]: "path A k pos 0"
  by (simp add: path_def)

lemma path_Suc:
  "pos < length A \<Longrightarrow>
   path A k pos (Suc j) = (other A k pos \<and> path A k ((pos + 1) mod length A) j)"
  by (auto simp: path_def less_Suc_eq_0_disj mod_add_left_eq all_conj_distrib)

text \<open>What a scan returns, by the offset at which it stops.\<close>

lemma scan_spec:
  "pos < length A \<Longrightarrow>
   (scan A k pos f = Exhausted \<and> path A k pos f) \<or>
   (\<exists>j<f. path A k pos j \<and> \<not> other A k ((pos + j) mod length A) \<and>
      scan A k pos f =
        (if A ! ((pos + j) mod length A) = None then Free ((pos + j) mod length A)
         else Match ((pos + j) mod length A)))"
proof (induction f arbitrary: pos)
  case 0
  then show ?case by simp
next
  case (Suc f)
  let ?n = "length A"
  let ?next = "(pos + 1) mod ?n"
  show ?case
  proof (cases "other A k pos")
    case False
    then have "scan A k pos (Suc f) = (if A ! pos = None then Free pos else Match pos)"
      by (auto simp: other_def split: option.splits)
    with False Suc.prems have "path A k pos 0 \<and> \<not> other A k ((pos + 0) mod ?n) \<and>
      scan A k pos (Suc f) =
        (if A ! ((pos + 0) mod ?n) = None then Free ((pos + 0) mod ?n)
         else Match ((pos + 0) mod ?n))"
      by simp
    then show ?thesis by blast
  next
    case True
    then have step: "scan A k pos (Suc f) = scan A k ?next f"
      by (auto simp: other_def split: option.splits)
    from Suc.prems have "0 < ?n" by linarith
    then have "?next < ?n" by simp
    from Suc.IH [OF this] show ?thesis
    proof
      assume "scan A k ?next f = Exhausted \<and> path A k ?next f"
      with True step Suc.prems show ?thesis by (simp add: path_Suc)
    next
      assume "\<exists>j<f. path A k ?next j \<and> \<not> other A k ((?next + j) mod ?n) \<and>
        scan A k ?next f =
          (if A ! ((?next + j) mod ?n) = None then Free ((?next + j) mod ?n)
           else Match ((?next + j) mod ?n))"
      then obtain j where j: "j < f" "path A k ?next j" "\<not> other A k ((?next + j) mod ?n)"
        "scan A k ?next f =
          (if A ! ((?next + j) mod ?n) = None then Free ((?next + j) mod ?n)
           else Match ((?next + j) mod ?n))" by blast
      have eq: "(?next + j) mod ?n = (pos + Suc j) mod ?n"
        by (simp add: mod_add_left_eq)
      from j True Suc.prems have "Suc j < Suc f \<and> path A k pos (Suc j) \<and>
        \<not> other A k ((pos + Suc j) mod ?n) \<and>
        scan A k pos (Suc f) =
          (if A ! ((pos + Suc j) mod ?n) = None then Free ((pos + Suc j) mod ?n)
           else Match ((pos + Suc j) mod ?n))"
        unfolding step eq [symmetric] by (simp add: path_Suc)
      then show ?thesis by blast
    qed
  qed
qed

lemma path_unique:
  assumes "path A k pos i" "\<not> other A k ((pos + i) mod length A)"
    and "path A k pos j" "\<not> other A k ((pos + j) mod length A)"
  shows "i = j"
proof (rule ccontr)
  assume "i \<noteq> j"
  then consider "i < j" | "j < i" by linarith
  then show False using assms by cases (auto simp: path_def)
qed

lemma scan_MatchI:
  assumes "pos < length A" "j < f" "path A k pos j"
    and "A ! ((pos + j) mod length A) = Some e" "fst e = k"
  shows "scan A k pos f = Match ((pos + j) mod length A)"
proof -
  from assms have no: "\<not> other A k ((pos + j) mod length A)" by (simp add: other_def)
  from assms(2,3) no have "\<not> path A k pos f" by (auto simp: path_def)
  with scan_spec [OF assms(1), of k f] obtain i where i: "i < f" "path A k pos i"
    "\<not> other A k ((pos + i) mod length A)"
    "scan A k pos f =
        (if A ! ((pos + i) mod length A) = None then Free ((pos + i) mod length A)
         else Match ((pos + i) mod length A))" by blast
  from path_unique [OF i(2,3) assms(3) no] have "i = j" .
  with i(4) assms(4) show ?thesis by simp
qed

lemma scan_FreeI:
  assumes "pos < length A" "j < f" "path A k pos j"
    and "A ! ((pos + j) mod length A) = None"
  shows "scan A k pos f = Free ((pos + j) mod length A)"
proof -
  from assms have no: "\<not> other A k ((pos + j) mod length A)" by (simp add: other_def)
  from assms(2,3) no have "\<not> path A k pos f" by (auto simp: path_def)
  with scan_spec [OF assms(1), of k f] obtain i where i: "i < f" "path A k pos i"
    "\<not> other A k ((pos + i) mod length A)"
    "scan A k pos f =
        (if A ! ((pos + i) mod length A) = None then Free ((pos + i) mod length A)
         else Match ((pos + i) mod length A))" by blast
  from path_unique [OF i(2,3) assms(3) no] have "i = j" .
  with i(4) assms(4) show ?thesis by simp
qed

lemma scan_MatchD:
  assumes "pos < length A" "scan A k pos f = Match p"
  shows "\<exists>j<f. p = (pos + j) mod length A \<and> path A k pos j \<and>
           (\<exists>e. A ! p = Some e \<and> fst e = k)"
proof -
  from scan_spec [OF assms(1), of k f] assms(2) obtain j where j: "j < f" "path A k pos j"
    "\<not> other A k ((pos + j) mod length A)"
    "Match p =
        (if A ! ((pos + j) mod length A) = None then Free ((pos + j) mod length A)
         else Match ((pos + j) mod length A))" by auto
  then have "p = (pos + j) mod length A" "A ! p \<noteq> None" by (auto split: if_splits)
  with j show ?thesis by (auto simp: other_def split: option.splits)
qed

lemma scan_FreeD:
  assumes "pos < length A" "scan A k pos f = Free p"
  shows "\<exists>j<f. p = (pos + j) mod length A \<and> path A k pos j \<and> A ! p = None"
proof -
  from scan_spec [OF assms(1), of k f] assms(2) obtain j where j: "j < f" "path A k pos j"
    "\<not> other A k ((pos + j) mod length A)"
    "Free p =
        (if A ! ((pos + j) mod length A) = None then Free ((pos + j) mod length A)
         else Match ((pos + j) mod length A))" by auto
  then have "p = (pos + j) mod length A" "A ! p = None" by (auto split: if_splits)
  with j show ?thesis by auto
qed

lemma scan_ExhaustedD:
  assumes "pos < length A" "scan A k pos f = Exhausted"
  shows "path A k pos f"
  using scan_spec [OF assms(1), of k f] assms(2) by (auto split: if_splits)

lemma scan_Match_lt:
  assumes "pos < length A" "scan A k pos f = Match p"
  shows "p < length A"
proof -
  from assms(1) have "0 < length A" by linarith
  with scan_MatchD [OF assms] show ?thesis by auto
qed

lemma scan_Free_lt:
  assumes "pos < length A" "scan A k pos f = Free p"
  shows "p < length A"
proof -
  from assms(1) have "0 < length A" by linarith
  with scan_FreeD [OF assms] show ?thesis by auto
qed

text \<open>The probe loop of the source, read off the scan.\<close>

lemma probe_loop_scan:
  fixes t :: "'v dkt"
  defines "fresh \<equiv> (LinearProbeTable (internal_sizes t) :: 'v lpt)"
  shows "probe_loop t key1 key2 is_insert pos f =
     (case scan (array t) key1 pos f of
        Exhausted \<Rightarrow> (Inl (if is_insert then FullError else KeyError), t)
      | Free q \<Rightarrow>
          if \<not> is_insert then (Inl KeyError, t)
          else
            (case key2 of
               None \<Rightarrow> (Inr (Single q), t)
             | Some k2 \<Rightarrow>
                 (case lpt_linear_probe fresh k2 is_insert of
                    Inl e \<Rightarrow> (Inl e, t\<lparr>array := (array t)[q := Some (key1, fresh)]\<rparr>)
                  | Inr p2 \<Rightarrow>
                      (Inr (Double q p2), t\<lparr>array := (array t)[q := Some (key1, fresh)]\<rparr>)))
      | Match q \<Rightarrow>
          (case key2 of
             None \<Rightarrow> (Inr (Single q), t)
           | Some k2 \<Rightarrow>
               (case lpt_linear_probe (snd (the (array t ! q))) k2 is_insert of
                  Inl e \<Rightarrow> (Inl e, t)
                | Inr p2 \<Rightarrow> (Inr (Double q p2), t))))"
proof (induction f arbitrary: pos)
  case 0
  then show ?case by simp
next
  case (Suc f)
  show ?case
  proof (cases "array t ! pos")
    case None
    then show ?thesis by (simp add: Let_def fresh_def split: option.splits sum.splits)
  next
    case (Some e)
    then show ?thesis
      by (cases e) (simp add: Suc.IH table_size_def split: option.splits sum.splits)
  qed
qed

lemma placedD:
  "placed A p \<Longrightarrow> A ! p = Some e \<Longrightarrow>
   \<exists>h. home (length A) (fst e) = Inr h \<and> scan A (fst e) h (length A) = Match p"
  by (auto simp: placed_def split: sum.splits)

lemma placedI:
  "A ! p = Some e \<Longrightarrow> home (length A) (fst e) = Inr h \<Longrightarrow>
   scan A (fst e) h (length A) = Match p \<Longrightarrow> placed A p"
  by (simp add: placed_def)

lemma placed_None: "A ! p = None \<Longrightarrow> placed A p"
  by (simp add: placed_def)

lemma probe_inv_uniq: "probe_inv A \<Longrightarrow> uniq A"
  unfolding probe_inv_def uniq_def
proof (intro allI impI)
  fix p q e e'
  assume inv: "\<forall>p<length A. placed A p" and p: "p < length A" and q: "q < length A"
    and ep: "A ! p = Some e" and eq: "A ! q = Some e'" and k: "fst e = fst e'"
  from inv p ep obtain h where "home (length A) (fst e) = Inr h"
    "scan A (fst e) h (length A) = Match p" by (blast dest: placedD)
  moreover from inv q eq obtain h' where "home (length A) (fst e') = Inr h'"
    "scan A (fst e') h' (length A) = Match q" by (blast dest: placedD)
  ultimately show "p = q" using k by simp
qed

lemma probe_inv_hashable: "probe_inv A \<Longrightarrow> hashable A"
  unfolding probe_inv_def hashable_def in_set_conv_nth by (blast dest: placedD)

lemma hashableD: "hashable A \<Longrightarrow> p < length A \<Longrightarrow> A ! p = Some e \<Longrightarrow>
  \<exists>h. home (length A) (fst e) = Inr h"
  unfolding hashable_def by (metis nth_mem)

lemma probe_inv_weak: "probe_inv A \<Longrightarrow> weak_inv A w"
  by (simp add: probe_inv_def weak_inv_def)

lemma weak_inv_done:
  assumes "weak_inv A w" "w < length A" "A ! w = None"
  shows "probe_inv A"
proof -
  have "\<not> run_from A w p" for p
    using assms(2,3) by (auto simp: run_from_def)
  with assms(1) show ?thesis by (simp add: weak_inv_def probe_inv_def)
qed

text \<open>Scans only read the keys.\<close>

lemma scan_keys_cong:
  assumes "length B = length A"
    and "\<And>p. p < length A \<Longrightarrow> map_option fst (B ! p) = map_option fst (A ! p)"
  shows "pos < length A \<Longrightarrow> scan B k pos f = scan A k pos f"
proof (induction f arbitrary: pos)
  case 0
  then show ?case by simp
next
  case (Suc f)
  from assms(2) [OF Suc.prems] have "map_option fst (B ! pos) = map_option fst (A ! pos)" .
  moreover from Suc.prems have "Suc pos mod length A < length A" by (rule next_lt)
  ultimately show ?case using Suc.IH [of "Suc pos mod length A"] assms(1)
    by (cases "A ! pos"; cases "B ! pos") auto
qed

lemma scan_Free_None: "scan A k pos f = Free q \<Longrightarrow> A ! q = None"
  by (induction f arbitrary: pos) (auto split: option.splits if_splits)

text \<open>Filling an empty slot keeps every match, and turns the free slot of a key into its match.\<close>

lemma scan_fill_Match:
  "A ! q = None \<Longrightarrow> scan A k pos f = Match p \<Longrightarrow> scan (A[q := x]) k pos f = Match p"
proof (induction f arbitrary: pos)
  case 0
  then show ?case by simp
next
  case (Suc f)
  from Suc.prems obtain e where e: "A ! pos = Some e" by (cases "A ! pos") auto
  with Suc.prems have "pos \<noteq> q" by auto
  with e Suc show ?case by (auto split: if_splits)
qed

lemma scan_fill_Free:
  "q < length A \<Longrightarrow> scan A k pos f = Free q \<Longrightarrow> scan (A[q := Some (k, v)]) k pos f = Match q"
proof (induction f arbitrary: pos)
  case 0
  then show ?case by simp
next
  case (Suc f)
  from Suc.prems(2) have none: "A ! q = None" by (rule scan_Free_None)
  show ?case
  proof (cases "A ! pos")
    case None
    with Suc.prems show ?thesis by simp
  next
    case (Some e)
    with none have "pos \<noteq> q" by auto
    with Some Suc show ?thesis by (auto split: if_splits)
  qed
qed

lemma offset_neq: "w < n \<Longrightarrow> 0 < m \<Longrightarrow> m < n \<Longrightarrow> (w + m) mod n \<noteq> (w::nat)"
  by (auto simp: mod_if)

lemma offset_back: "h < n \<Longrightarrow> j < n \<Longrightarrow> ((h + j) mod n + n - h) mod n = (j::nat)"
  by (auto simp: mod_if)

lemma offset_forth: "h < n \<Longrightarrow> w < n \<Longrightarrow> (h + (w + n - h) mod n) mod n = (w::nat)"
  by (auto simp: mod_if)

lemma run_from_shift:
  assumes w: "w < length A" and pw: "p \<noteq> w" and r: "run_from A w p"
  shows "run_from (A[w := None]) ((w + 1) mod length A) p"
proof -
  let ?n = "length A"
  from r obtain i where i: "i < ?n" "p = (w + i) mod ?n"
    and occ: "\<forall>j\<le>i. A ! ((w + j) mod ?n) \<noteq> None"
    by (auto simp: run_from_def)
  have "i \<noteq> 0"
  proof
    assume "i = 0"
    with i(2) w have "p = w" by simp
    with pw show False by simp
  qed
  then obtain i' where i': "i = Suc i'" by (cases i) auto
  have "p = ((w + 1) mod ?n + i') mod ?n"
    using i(2) i' by (simp add: mod_add_left_eq)
  moreover have "A[w := None] ! (((w + 1) mod ?n + j) mod ?n) \<noteq> None" if "j \<le> i'" for j
  proof -
    have eq: "((w + 1) mod ?n + j) mod ?n = (w + Suc j) mod ?n"
      by (simp add: mod_add_left_eq)
    from that i' i(1) have "Suc j < ?n" by simp
    with w have "(w + Suc j) mod ?n \<noteq> w" by (intro offset_neq) simp_all
    moreover from that i' have "Suc j \<le> i" by simp
    with occ have "A ! ((w + Suc j) mod ?n) \<noteq> None" by blast
    ultimately show ?thesis unfolding eq by simp
  qed
  moreover from i i' have "i' < ?n" by simp
  ultimately show ?thesis unfolding run_from_def by auto
qed

lemma path_hits_run:
  assumes h: "h < length A" and d: "d < length A" and pth: "path A k h d"
    and e: "A ! ((h + d) mod length A) = Some e"
    and i: "i < d" and hit: "(h + i) mod length A = w"
  shows "run_from A w ((h + d) mod length A)"
proof -
  let ?n = "length A"
  have "(w + (d - i)) mod ?n = ((h + i) mod ?n + (d - i)) mod ?n"
    using hit by simp
  also have "\<dots> = (h + i + (d - i)) mod ?n"
    by (rule mod_add_left_eq)
  also have "h + i + (d - i) = h + d"
    using i by simp
  finally have "(h + d) mod ?n = (w + (d - i)) mod ?n" by simp
  moreover have "A ! ((w + j) mod ?n) \<noteq> None" if "j \<le> d - i" for j
  proof -
    have "(w + j) mod ?n = ((h + i) mod ?n + j) mod ?n"
      using hit by simp
    also have "\<dots> = (h + i + j) mod ?n"
      by (rule mod_add_left_eq)
    finally have eq: "(w + j) mod ?n = (h + (i + j)) mod ?n"
      by (simp add: add.assoc)
    show ?thesis
    proof (cases "i + j < d")
      case True
      with pth have "other A k ((h + (i + j)) mod ?n)" by (simp add: path_def)
      then show ?thesis unfolding eq by (auto simp: other_def split: option.splits)
    next
      case False
      with that i have "i + j = d" by simp
      with e show ?thesis unfolding eq by simp
    qed
  qed
  moreover from d have "d - i < ?n" by simp
  ultimately show ?thesis unfolding run_from_def by blast
qed

text \<open>Vacating the slot under the walker and stepping on keeps the weak invariant.\<close>

lemma weak_inv_vacate:
  assumes inv: "weak_inv A w" and w: "w < length A"
  shows "weak_inv (A[w := None]) ((w + 1) mod length A)"
  unfolding weak_inv_def
proof (intro allI impI)
  let ?n = "length A"
  let ?A1 = "A[w := None]"
  fix p
  assume p: "p < length ?A1" and nr: "\<not> run_from ?A1 ((w + 1) mod length A) p"
  show "placed ?A1 p"
  proof (cases "?A1 ! p")
    case None
    then show ?thesis by (rule placed_None)
  next
    case (Some e)
    with w have pw: "p \<noteq> w" by auto
    with Some have e: "A ! p = Some e" by simp
    from nr run_from_shift [OF w pw] have "\<not> run_from A w p" by auto
    with inv p have "placed A p" by (simp add: weak_inv_def)
    with e obtain h where h: "home ?n (fst e) = Inr h" "scan A (fst e) h ?n = Match p"
      by (blast dest: placedD)
    from w have "0 < ?n" by linarith
    with h(1) have hn: "h < ?n" by (rule home_lt)
    from scan_MatchD [OF hn h(2)] obtain d where d: "d < ?n" "p = (h + d) mod ?n"
      "path A (fst e) h d" by blast
    have "path ?A1 (fst e) h d"
      unfolding path_def
    proof (intro allI impI)
      fix i assume i: "i < d"
      with d(3) have o: "other A (fst e) ((h + i) mod ?n)" by (simp add: path_def)
      have "(h + i) mod ?n \<noteq> w"
      proof
        assume "(h + i) mod ?n = w"
        from path_hits_run [OF hn d(1) d(3) _ i this] e d(2) have "run_from A w p" by simp
        with \<open>\<not> run_from A w p\<close> show False by simp
      qed
      with o show "other ?A1 (fst e) ((h + i) mod length ?A1)" by (simp add: other_def)
    qed
    with hn d Some have "scan ?A1 (fst e) h (length ?A1) = Match ((h + d) mod length ?A1)"
      by (intro scan_MatchI) simp_all
    with d(2) have "scan ?A1 (fst e) h (length ?A1) = Match p" by simp
    with Some h(1) show ?thesis by (intro placedI) simp_all
  qed
qed

lemma run_from_mono:
  assumes "run_from A w p"
  shows "run_from (A[q := Some x]) w p"
proof -
  have "A[q := Some x] ! r \<noteq> None" if "A ! r \<noteq> None" for r
    using that by (cases "r = q"; cases "q < length A") (auto simp: list_update_beyond)
  with assms show ?thesis unfolding run_from_def by auto
qed

text \<open>Re-seating a key at the free slot its scan returns keeps the weak invariant.\<close>

lemma weak_inv_fill:
  assumes inv: "weak_inv A w" and q: "q < length A"
    and h: "home (length A) k = Inr h" and s: "scan A k h (length A) = Free q"
  shows "weak_inv (A[q := Some (k, v)]) w"
  unfolding weak_inv_def
proof (intro allI impI)
  let ?A' = "A[q := Some (k, v)]"
  fix p
  assume p: "p < length ?A'" and nr: "\<not> run_from ?A' w p"
  from s have none: "A ! q = None" by (rule scan_Free_None)
  show "placed ?A' p"
  proof (cases "p = q")
    case True
    from scan_fill_Free [OF q s, of v] h q True show ?thesis
      by (intro placedI [where e = "(k, v)" and h = h]) simp_all
  next
    case False
    show ?thesis
    proof (cases "A ! p")
      case None
      with False show ?thesis by (simp add: placed_None)
    next
      case (Some e)
      from nr run_from_mono have "\<not> run_from A w p" by blast
      with inv p have "placed A p" by (simp add: weak_inv_def)
      with Some obtain h' where h': "home (length A) (fst e) = Inr h'"
        "scan A (fst e) h' (length A) = Match p" by (blast dest: placedD)
      from scan_fill_Match [OF none h'(2)] h'(1) Some False show ?thesis
        by (intro placedI [where e = e and h = h']) simp_all
    qed
  qed
qed

text \<open>In a table with a vacated slot, the scan for a key that is nowhere finds a free slot,
  no later than the vacated one.\<close>

lemma scan_absent_free:
  assumes h: "h < length A" and w: "w < length A" and none: "A ! w = None"
    and absent: "\<forall>p<length A. \<forall>e. A ! p = Some e \<longrightarrow> fst e \<noteq> k"
  shows "\<exists>j. j \<le> (w + length A - h) mod length A \<and>
           scan A k h (length A) = Free ((h + j) mod length A) \<and>
           (j = (w + length A - h) mod length A \<longleftrightarrow> (h + j) mod length A = w)"
proof -
  let ?n = "length A"
  let ?dw = "(w + ?n - h) mod ?n"
  from h have n: "0 < ?n" by linarith
  have dw: "?dw < ?n" using n by simp
  have at: "(h + ?dw) mod ?n = w" using h w by (rule offset_forth)
  with none have no: "\<not> other A k ((h + ?dw) mod ?n)" by (simp add: other_def)
  with dw have "\<not> path A k h ?n" by (auto simp: path_def)
  with scan_spec [OF h, of k ?n] obtain j where j: "j < ?n" "path A k h j"
    "\<not> other A k ((h + j) mod ?n)"
    "scan A k h ?n =
       (if A ! ((h + j) mod ?n) = None then Free ((h + j) mod ?n) else Match ((h + j) mod ?n))"
    by blast
  have le: "j \<le> ?dw"
  proof (rule ccontr)
    assume "\<not> j \<le> ?dw"
    then have "?dw < j" by simp
    with j(2) have "other A k ((h + ?dw) mod ?n)" by (simp add: path_def)
    with no show False by simp
  qed
  have free: "A ! ((h + j) mod ?n) = None"
  proof (cases "A ! ((h + j) mod ?n)")
    case None
    then show ?thesis .
  next
    case (Some e)
    with j(3) have "fst e = k" by (simp add: other_def)
    moreover from n have "(h + j) mod ?n < ?n" by simp
    ultimately show ?thesis using absent Some by blast
  qed
  have "j = ?dw \<longleftrightarrow> (h + j) mod ?n = w"
  proof
    assume "j = ?dw"
    with at show "(h + j) mod ?n = w" by simp
  next
    assume "(h + j) mod ?n = w"
    then have "((h + j) mod ?n + ?n - h) mod ?n = ?dw" by simp
    with offset_back [OF h j(1)] show "j = ?dw" by simp
  qed
  with le free j(4) show ?thesis by auto
qed

text \<open>Moving the entry of slot \<open>w\<close> to an empty slot \<open>q\<close>.\<close>

lemma move_nth:
  assumes "w < length A" "q < length A" "A[w := None] ! q = None"
  shows "A[w := None, q := Some e] ! p =
           (if p = q then Some e else if p = w then None else A ! p)"
  using assms by (auto simp: nth_list_update)

lemma move_ents:
  assumes w: "w < length A" and q: "q < length A" and e: "A ! w = Some e"
    and free: "A[w := None] ! q = None"
  shows "ents (A[w := None, q := Some e]) = ents A"
proof -
  let ?A' = "A[w := None, q := Some e]"
  have nth: "?A' ! p = (if p = q then Some e else if p = w then None else A ! p)" for p
    using w q free by (rule move_nth)
  have len: "length ?A' = length A" by simp
  show ?thesis
  proof (intro set_eqI iffI)
    fix x assume "x \<in> ents ?A'"
    then obtain p where p: "p < length A" "?A' ! p = Some x"
      unfolding ents_def in_set_conv_nth len by auto
    with nth [of p] e w have "\<exists>r<length A. A ! r = Some x"
      by (auto split: if_splits)
    then show "x \<in> ents A" unfolding ents_def in_set_conv_nth by auto
  next
    fix x assume "x \<in> ents A"
    then obtain p where p: "p < length A" "A ! p = Some x"
      unfolding ents_def in_set_conv_nth by auto
    have "\<exists>r<length A. ?A' ! r = Some x"
    proof (cases "p = w")
      case True
      with p e q nth [of q] show ?thesis by auto
    next
      case False
      with p free have "p \<noteq> q" by auto
      with False p nth [of p] show ?thesis by auto
    qed
    then show "x \<in> ents ?A'" unfolding ents_def in_set_conv_nth len by auto
  qed
qed

lemma move_uniq:
  assumes w: "w < length A" and q: "q < length A" and e: "A ! w = Some e"
    and free: "A[w := None] ! q = None" and u: "uniq A"
  shows "uniq (A[w := None, q := Some e])"
proof -
  let ?A' = "A[w := None, q := Some e]"
  have nth: "?A' ! p = (if p = q then Some e else if p = w then None else A ! p)" for p
    using w q free by (rule move_nth)
  have orig: "A ! (if p = q then w else p) = Some x \<and> (p \<noteq> q \<longrightarrow> p \<noteq> w)"
    if "?A' ! p = Some x" for p x
    using that nth [of p] e by (auto split: if_splits)
  show ?thesis
    unfolding uniq_def
  proof (intro allI impI)
    fix p p' x x'
    assume p: "p < length ?A'" and p': "p' < length ?A'"
      and x: "?A' ! p = Some x" and x': "?A' ! p' = Some x'" and k: "fst x = fst x'"
    from orig [OF x] orig [OF x'] have
      b: "A ! (if p = q then w else p) = Some x" "A ! (if p' = q then w else p') = Some x'"
      and n: "p \<noteq> q \<longrightarrow> p \<noteq> w" "p' \<noteq> q \<longrightarrow> p' \<noteq> w" by auto
    from p p' w have "(if p = q then w else p) < length A" "(if p' = q then w else p') < length A"
      by auto
    with u b k have "(if p = q then w else p) = (if p' = q then w else p')"
      unfolding uniq_def by blast
    with n show "p = p'" by (auto split: if_splits)
  qed
qed

lemma hashable_ents:
  "ents B = ents A \<Longrightarrow> length B = length A \<Longrightarrow> hashable A \<Longrightarrow> hashable B"
  unfolding hashable_def ents_def by auto

lemma uniq_absent:
  assumes u: "uniq A" and w: "w < length A" and e: "A ! w = Some e"
  shows "\<forall>p<length (A[w := None]). \<forall>x. A[w := None] ! p = Some x \<longrightarrow> fst x \<noteq> fst e"
proof (intro allI impI)
  fix p x
  assume p: "p < length (A[w := None])" and x: "A[w := None] ! p = Some x"
  with w have pw: "p \<noteq> w" by auto
  with x have "A ! p = Some x" by simp
  moreover from p have "p < length A" by simp
  ultimately show "fst x \<noteq> fst e"
    using u [unfolded uniq_def, rule_format, of p w x e] w e pw by auto
qed

lemma move_total_disp:
  assumes w: "w < length A" and q: "q < length A" and e: "A ! w = Some e"
    and free: "A[w := None] ! q = None" and qw: "q \<noteq> w"
    and h: "home (length A) (fst e) = Inr h" and hn: "h < length A"
    and j: "q = (h + j) mod length A" "j < (w + length A - h) mod length A"
  shows "total_disp (A[w := None, q := Some e]) < total_disp A"
proof -
  let ?n = "length A"
  let ?A' = "A[w := None, q := Some e]"
  have nth: "?A' ! p = (if p = q then Some e else if p = w then None else A ! p)" for p
    using w q free by (rule move_nth)
  from free qw have Aq: "A ! q = None" by simp
  let ?S = "{..<?n} - {w} - {q}"
  have split: "(\<Sum>p<?n. f p) = f w + (f q + sum f ?S)" for f :: "nat \<Rightarrow> nat"
  proof -
    have "(\<Sum>p<?n. f p) = f w + sum f ({..<?n} - {w})"
      using w by (intro sum.remove) auto
    also have "sum f ({..<?n} - {w}) = f q + sum f ?S"
      using q qw by (intro sum.remove) auto
    finally show ?thesis .
  qed
  have rest: "sum (disp ?A') ?S = sum (disp A) ?S"
    by (intro sum.cong) (auto simp: disp_def nth split: option.splits sum.splits)
  have "j < ?n" using j(2) w
    by (metis less_trans mod_less_divisor length_greater_0_conv list.size(3) not_less_zero)
  have "disp ?A' q = (q + ?n - h) mod ?n"
    using h by (simp add: disp_def nth)
  with j(1) offset_back [OF hn \<open>j < ?n\<close>] have "disp ?A' q = j" by simp
  moreover have "disp ?A' w = 0" using qw by (simp add: disp_def nth)
  moreover have "disp A q = 0" using Aq by (simp add: disp_def)
  moreover have "disp A w = (w + ?n - h) mod ?n" using e h by (simp add: disp_def)
  ultimately show ?thesis
    unfolding total_disp_def using split [of "disp A"] split [of "disp ?A'"] rest j(2)
    by simp
qed

lemma linear_probe_single_insert:
  "linear_probe t k None True =
     (case home (table_size t) k of
        Inl e \<Rightarrow> (Inl e, t)
      | Inr h \<Rightarrow>
          (case scan (array t) k h (table_size t) of
             Exhausted \<Rightarrow> (Inl FullError, t)
           | Free q \<Rightarrow> (Inr (Single q), t)
           | Match q \<Rightarrow> (Inr (Single q), t)))"
  by (simp add: linear_probe_def hash1_home probe_loop_scan split: sum.splits scan_result.splits)

lemma repair_step_empty: "array t ! w = None \<Longrightarrow> repair_step t w = Inl (Inr (), t)"
  by (simp add: repair_step_def)

lemma repair_step_move:
  fixes t :: "'v dkt"
  assumes u: "uniq (array t)" and hs: "hashable (array t)"
    and w: "w < length (array t)" and e: "array t ! w = Some e"
  shows "\<exists>q j h. home (length (array t)) (fst e) = Inr h \<and> h < length (array t) \<and>
           q = (h + j) mod length (array t) \<and> q < length (array t) \<and>
           j \<le> (w + length (array t) - h) mod length (array t) \<and>
           (j = (w + length (array t) - h) mod length (array t) \<longleftrightarrow> q = w) \<and>
           scan ((array t)[w := None]) (fst e) h (length (array t)) = Free q \<and>
           repair_step t w =
             Inr (t\<lparr>array := (array t)[w := None, q := Some e]\<rparr>,
                  (w + 1) mod length (array t))"
proof -
  let ?A = "array t"
  let ?n = "length ?A"
  let ?A1 = "?A[w := None]"
  from hashableD [OF hs w e] obtain h where h: "home ?n (fst e) = Inr h" by blast
  from w have n: "0 < ?n" by linarith
  with h have hn: "h < ?n" by (rule home_lt)
  have "\<exists>j. j \<le> (w + length ?A1 - h) mod length ?A1 \<and>
           scan ?A1 (fst e) h (length ?A1) = Free ((h + j) mod length ?A1) \<and>
           (j = (w + length ?A1 - h) mod length ?A1 \<longleftrightarrow> (h + j) mod length ?A1 = w)"
    using hn w uniq_absent [OF u w e] by (intro scan_absent_free) simp_all
  then obtain j where j: "j \<le> (w + ?n - h) mod ?n"
    "scan ?A1 (fst e) h ?n = Free ((h + j) mod ?n)"
    "j = (w + ?n - h) mod ?n \<longleftrightarrow> (h + j) mod ?n = w" by auto
  obtain k tbl where ek: "e = (k, tbl)" by (cases e)
  have "repair_step t w =
          Inr (t\<lparr>array := ?A[w := None, (h + j) mod ?n := Some e]\<rparr>, (w + 1) mod ?n)"
    using e ek h j(2)
    by (simp add: repair_step_def linear_probe_single_insert table_size_def)
  moreover from n have "(h + j) mod ?n < ?n" by simp
  ultimately show ?thesis using h hn j by blast
qed

lemma step_back: "w < n \<Longrightarrow> ((w + 1) mod n + (n - 1)) mod n = (w::nat)"
  by (auto simp: mod_if)

lemma repaired_refl: "probe_inv (array t) \<Longrightarrow> repaired t t"
  by (simp add: repaired_def)

lemma repair_inner:
  fixes t :: "'v dkt"
  assumes outer: "\<And>(t2::'v dkt) w2 i2.
      total_disp (array t2) < total_disp (array t) \<Longrightarrow> walk_ok t2 w2 i2 \<Longrightarrow>
      \<exists>t'. repair t2 w2 = Some (Inr (), t') \<and> repaired t2 t'"
  shows "walk_ok t w i \<Longrightarrow> \<exists>t'. repair t w = Some (Inr (), t') \<and> repaired t t'"
proof (induction i arbitrary: w)
  case 0
  then have "array t ! w = None" "weak_inv (array t) w" "w < length (array t)"
    unfolding walk_ok_def by auto
  then have "repair t w = Some (Inr (), t)" "probe_inv (array t)"
    by (simp_all add: repair.simps [of t w] repair_step_empty weak_inv_done)
  then show ?case by (auto intro: repaired_refl)
next
  case (Suc i)
  let ?A = "array t"
  let ?n = "length ?A"
  from Suc.prems have u: "uniq ?A" and hs: "hashable ?A" and wi: "weak_inv ?A w"
    and w: "w < ?n" and i: "Suc i < ?n" and hole: "?A ! ((w + Suc i) mod ?n) = None"
    unfolding walk_ok_def by blast+
  show ?case
  proof (cases "?A ! w")
    case None
    with wi w have "repair t w = Some (Inr (), t)" "probe_inv ?A"
      by (simp_all add: repair.simps [of t w] repair_step_empty weak_inv_done)
    then show ?thesis by (auto intro: repaired_refl)
  next
    case (Some e)
    from repair_step_move [OF u hs w Some] obtain q j h where
      h: "home ?n (fst e) = Inr h" "h < ?n" and q: "q = (h + j) mod ?n" "q < ?n"
      and j: "j \<le> (w + ?n - h) mod ?n" "j = (w + ?n - h) mod ?n \<longleftrightarrow> q = w"
      and sc: "scan (?A[w := None]) (fst e) h ?n = Free q"
      and step: "repair_step t w = Inr (t\<lparr>array := ?A[w := None, q := Some e]\<rparr>, (w + 1) mod ?n)"
      by blast
    let ?A' = "?A[w := None, q := Some e]"
    let ?t' = "t\<lparr>array := ?A'\<rparr>"
    let ?w' = "(w + 1) mod ?n"
    from sc have free: "?A[w := None] ! q = None" by (rule scan_Free_None)
    have unfold: "repair t w = repair ?t' ?w'"
      by (simp add: repair.simps [of t w] step)
    have w': "?w' < ?n" using w next_lt [of w ?n] by simp
    have u': "uniq ?A'" using w q(2) Some free u by (rule move_uniq)
    have en: "ents ?A' = ents ?A" using w q(2) Some free by (rule move_ents)
    then have hs': "hashable ?A'" using hs by (intro hashable_ents [of ?A' ?A]) simp_all
    obtain k v where ekv: "e = (k, v)" by (cases e)
    from weak_inv_vacate [OF wi w] have "weak_inv (?A[w := None]) ?w'" .
    then have "weak_inv ((?A[w := None])[q := Some (k, v)]) ?w'"
      using q(2) h(1) sc by (intro weak_inv_fill [where h = h]) (simp_all add: ekv)
    then have wi': "weak_inv ?A' ?w'" by (simp add: ekv)
    show ?thesis
    proof (cases "q = w")
      case True
      with Some w have same: "?A' = ?A" by (simp add: list_update_same_conv)
      then have t': "?t' = t" by simp
      have "(?w' + i) mod ?n = (w + Suc i) mod ?n" by (simp add: mod_add_left_eq)
      with hole u hs wi' w' i same have "walk_ok t ?w' i"
        by (simp add: walk_ok_def)
      from Suc.IH [OF this] unfold t' show ?thesis by simp
    next
      case False
      with j have lt: "j < (w + ?n - h) mod ?n" by simp
      have less: "total_disp ?A' < total_disp ?A"
        using w q(2) Some free False h q(1) lt by (rule move_total_disp)
      have "(?w' + (?n - 1)) mod ?n = w"
        using w by (rule step_back)
      moreover have "?A' ! w = None" using False w by simp
      ultimately have "walk_ok ?t' ?w' (?n - 1)"
        using u' hs' wi' w' by (simp add: walk_ok_def)
      with less outer [of ?t' ?w' "?n - 1"] obtain t'' where
        t'': "repair ?t' ?w' = Some (Inr (), t'')" "repaired ?t' t''" by auto
      from t''(2) en have "repaired t t''" by (simp add: repaired_def)
      with t''(1) unfold show ?thesis by simp
    qed
  qed
qed

lemma repair_total:
  fixes t :: "'v dkt"
  shows "walk_ok t w i \<Longrightarrow> \<exists>t'. repair t w = Some (Inr (), t') \<and> repaired t t'"
proof (induction "total_disp (array t)" arbitrary: t w i rule: less_induct)
  case less
  show ?case
    by (rule repair_inner [OF _ less.prems]) (rule less.hyps)
qed

text \<open>The nested table as a map.\<close>

lemma index_of_Some:
  "index_of k xs = Some i \<Longrightarrow> i < length xs \<and> fst (xs ! i) = k \<and> map_of xs k = Some (snd (xs ! i))"
  by (induction xs arbitrary: i) (auto split: if_splits)

lemma index_of_None: "index_of k xs = None \<longleftrightarrow> map_of xs k = None"
  by (induction xs) auto

lemma map_of_update_index:
  "index_of k xs = Some i \<Longrightarrow> map_of (xs[i := (k, v)]) = (map_of xs)(k \<mapsto> v)"
  by (induction xs arbitrary: i) (auto simp: fun_upd_twist split: if_splits)

lemma map_of_remove: "map_of (filter (\<lambda>kv. fst kv \<noteq> k) xs) = (map_of xs)(k := None)"
  by (induction xs) auto

lemma lpt_probe_lookup:
  "lpt_linear_probe tbl k False =
     (case index_of k (lpt_array tbl) of None \<Rightarrow> Inl KeyError | Some i \<Rightarrow> Inr i)"
  by (simp add: lpt_linear_probe_def split: option.splits)

lemma lpt_setitem_map:
  assumes "lpt_linear_probe tbl k True = Inr p"
  shows "\<exists>tbl'. lpt_setitem tbl k v = Inr tbl' \<and>
           map_of (lpt_array tbl') = (map_of (lpt_array tbl))(k \<mapsto> v) \<and>
           lpt_array tbl' \<noteq> [] \<and> lpt_sizes tbl' = lpt_sizes tbl"
proof (cases "index_of k (lpt_array tbl)")
  case None
  then have "map_of (lpt_array tbl) k = None" by (simp add: index_of_None)
  then have "map_of (lpt_array tbl @ [(k, v)]) = (map_of (lpt_array tbl))(k \<mapsto> v)"
    by (auto simp: map_add_def fun_eq_iff split: option.splits)
  with None assms show ?thesis
    by (auto simp: lpt_setitem_def lpt_linear_probe_def split: if_splits)
next
  case (Some i)
  from index_of_Some [OF Some] map_of_update_index [OF Some, of v] Some show ?thesis
    by (auto simp: lpt_setitem_def lpt_linear_probe_def)
qed

lemma lpt_setitem_fails:
  "lpt_linear_probe tbl k True = Inl e \<Longrightarrow> lpt_setitem tbl k v = Inl e"
  by (simp add: lpt_setitem_def)

lemma lpt_delitem_map:
  "lpt_delitem tbl k =
     (case map_of (lpt_array tbl) k of
        None \<Rightarrow> Inl KeyError
      | Some v \<Rightarrow> Inr (tbl\<lparr>lpt_array := filter (\<lambda>kv. fst kv \<noteq> k) (lpt_array tbl)\<rparr>))"
proof (cases "index_of k (lpt_array tbl)")
  case None
  then have "map_of (lpt_array tbl) k = None" by (simp add: index_of_None)
  with None show ?thesis by (simp add: lpt_delitem_def lpt_probe_lookup)
next
  case (Some i)
  from index_of_Some [OF Some] have "map_of (lpt_array tbl) k = Some (snd (lpt_array tbl ! i))"
    by simp
  with Some show ?thesis by (simp add: lpt_delitem_def lpt_probe_lookup)
qed

text \<open>Membership in the slot array.\<close>

lemma ents_nth: "e \<in> ents A \<longleftrightarrow> (\<exists>p<length A. A ! p = Some e)"
  by (auto simp: ents_def in_set_conv_nth)

lemma ents_fill:
  assumes "q < length A" "A ! q = None"
  shows "ents (A[q := Some e]) = insert e (ents A)"
proof -
  have nth: "A[q := Some e] ! p = (if p = q then Some e else A ! p)" if "p < length A" for p
    using that by (simp add: nth_list_update)
  show ?thesis
  proof (intro set_eqI iffI)
    fix x assume "x \<in> ents (A[q := Some e])"
    then obtain p where p: "p < length A" "A[q := Some e] ! p = Some x"
      by (auto simp: ents_nth)
    with nth [of p] show "x \<in> insert e (ents A)"
      by (cases "p = q") (auto simp: ents_nth)
  next
    fix x assume x: "x \<in> insert e (ents A)"
    show "x \<in> ents (A[q := Some e])"
    proof (cases "x = e")
      case True
      with assms nth [of q] show ?thesis by (auto simp: ents_nth)
    next
      case False
      with x obtain p where p: "p < length A" "A ! p = Some x" by (auto simp: ents_nth)
      with assms have "p \<noteq> q" by auto
      with p nth [of p] show ?thesis by (auto simp: ents_nth)
    qed
  qed
qed

lemma ents_replace:
  assumes q: "q < length A" and old: "A ! q = Some (k, old)" and u: "uniq A"
  shows "ents (A[q := Some (k, new)]) = insert (k, new) (ents A - {(k, old)})"
proof -
  have nth: "A[q := Some (k, new)] ! p = (if p = q then Some (k, new) else A ! p)"
    if "p < length A" for p
    using that by (simp add: nth_list_update)
  have only: "p = q" if "p < length A" "A ! p = Some (k, x)" for p x
    using u [unfolded uniq_def, rule_format, of p q "(k, x)" "(k, old)"] that q old by simp
  show ?thesis
  proof (intro set_eqI iffI)
    fix x assume "x \<in> ents (A[q := Some (k, new)])"
    then obtain p where p: "p < length A" "A[q := Some (k, new)] ! p = Some x"
      by (auto simp: ents_nth)
    show "x \<in> insert (k, new) (ents A - {(k, old)})"
    proof (cases "p = q")
      case True
      with p nth [of p] show ?thesis by simp
    next
      case False
      with p nth [of p] have "A ! p = Some x" by simp
      with p False only [of p] show ?thesis by (cases x) (auto simp: ents_nth)
    qed
  next
    fix x assume x: "x \<in> insert (k, new) (ents A - {(k, old)})"
    show "x \<in> ents (A[q := Some (k, new)])"
    proof (cases "x = (k, new)")
      case True
      with q nth [of q] show ?thesis by (auto simp: ents_nth)
    next
      case False
      with x obtain p where p: "p < length A" "A ! p = Some x" "x \<noteq> (k, old)"
        by (auto simp: ents_nth)
      with old have "p \<noteq> q" by auto
      with p nth [of p] show ?thesis by (auto simp: ents_nth)
    qed
  qed
qed

lemma ents_vacate:
  assumes q: "q < length A" and old: "A ! q = Some (k, old)" and u: "uniq A"
  shows "ents (A[q := None]) = ents A - {(k, old)}"
proof -
  have nth: "A[q := None] ! p = (if p = q then None else A ! p)" if "p < length A" for p
    using that by (simp add: nth_list_update)
  have only: "p = q" if "p < length A" "A ! p = Some (k, x)" for p x
    using u [unfolded uniq_def, rule_format, of p q "(k, x)" "(k, old)"] that q old by simp
  show ?thesis
  proof (intro set_eqI iffI)
    fix x assume "x \<in> ents (A[q := None])"
    then obtain p where p: "p < length A" "A[q := None] ! p = Some x"
      by (auto simp: ents_nth)
    with nth [of p] have "p \<noteq> q" "A ! p = Some x" by (auto split: if_splits)
    with p only [of p] show "x \<in> ents A - {(k, old)}" by (cases x) (auto simp: ents_nth)
  next
    fix x assume x: "x \<in> ents A - {(k, old)}"
    then obtain p where p: "p < length A" "A ! p = Some x" "x \<noteq> (k, old)"
      by (auto simp: ents_nth)
    with old have "p \<noteq> q" by auto
    with p nth [of p] show "x \<in> ents (A[q := None])" by (auto simp: ents_nth)
  qed
qed

lemma uniq_ents:
  "uniq A \<Longrightarrow> (k, x) \<in> ents A \<Longrightarrow> (k, y) \<in> ents A \<Longrightarrow> x = y"
proof -
  assume u: "uniq A" and "(k, x) \<in> ents A" and "(k, y) \<in> ents A"
  then obtain p q where p: "p < length A" "A ! p = Some (k, x)"
    and q: "q < length A" "A ! q = Some (k, y)" by (auto simp: ents_nth)
  with u [unfolded uniq_def, rule_format, of p q "(k, x)" "(k, y)"] have "p = q" by simp
  with p q show "x = y" by simp
qed

text \<open>A scan for a key finds the key's slot if there is one, under the invariant.\<close>

lemma probe_inv_scan:
  assumes "probe_inv A" "p < length A" "A ! p = Some (k, tbl)"
  shows "\<exists>h. home (length A) k = Inr h \<and> h < length A \<and> scan A k h (length A) = Match p"
proof -
  from assms have "placed A p" by (simp add: probe_inv_def)
  from placedD [OF this assms(3)] obtain h where
    h: "home (length A) k = Inr h" "scan A k h (length A) = Match p" by auto
  from assms(2) have "0 < length A" by linarith
  with h(1) have "h < length A" by (rule home_lt)
  with h show ?thesis by blast
qed

lemma scan_Match_key:
  assumes "h < length A" "scan A k h f = Match p"
  shows "p < length A \<and> (\<exists>tbl. A ! p = Some (k, tbl))"
proof -
  from scan_MatchD [OF assms] obtain e where e: "A ! p = Some e" "fst e = k" by blast
  then have "A ! p = Some (k, snd e)" by (cases e) simp
  with scan_Match_lt [OF assms] show ?thesis by blast
qed

lemma linear_probe_lookup_present:
  fixes t :: "'v dkt"
  assumes "probe_inv (array t)" "p < length (array t)" "array t ! p = Some (k1, tbl)"
  shows "linear_probe t k1 (Some k2) False =
           (case lpt_linear_probe tbl k2 False of
              Inl e \<Rightarrow> (Inl e, t)
            | Inr p2 \<Rightarrow> (Inr (Double p p2), t))"
    and "linear_probe t k1 None b = (Inr (Single p), t)"
proof -
  from probe_inv_scan [OF assms] obtain h where
    "home (length (array t)) k1 = Inr h" "scan (array t) k1 h (length (array t)) = Match p"
    by blast
  with assms(3) show "linear_probe t k1 (Some k2) False =
           (case lpt_linear_probe tbl k2 False of
              Inl e \<Rightarrow> (Inl e, t)
            | Inr p2 \<Rightarrow> (Inr (Double p p2), t))"
    and "linear_probe t k1 None b = (Inr (Single p), t)"
    by (simp_all add: linear_probe_def hash1_home table_size_def probe_loop_scan
        split: sum.splits)
qed

lemma linear_probe_lookup_state: "snd (linear_probe t k1 k2 False) = t"
  by (simp add: linear_probe_def probe_loop_scan
      split: sum.splits scan_result.splits option.splits)

lemma linear_probe_lookup_absent:
  assumes "k1 \<notin> fst ` ents (array t)"
  shows "\<exists>e. linear_probe t k1 k2 False = (Inl e, t)"
proof (cases "home (table_size t) k1")
  case (Inl e)
  then show ?thesis by (simp add: linear_probe_def hash1_home)
next
  case (Inr h)
  show ?thesis
  proof (cases "scan (array t) k1 h (table_size t)")
    case (Match p)
    have n0: "0 < table_size t"
    proof (rule ccontr)
      assume "\<not> 0 < table_size t"
      then have "table_size t = 0" by simp
      with Match show False by simp
    qed
    from Inr n0 have "h < table_size t" by (rule home_lt)
    then have hn: "h < length (array t)" by (simp add: table_size_def)
    from Match have "scan (array t) k1 h (length (array t)) = Match p"
      by (simp add: table_size_def)
    from scan_Match_key [OF hn this] obtain tbl where
      "p < length (array t)" "array t ! p = Some (k1, tbl)" by blast
    then have "(k1, tbl) \<in> ents (array t)" unfolding ents_nth by blast
    then have "k1 \<in> fst ` ents (array t)" by (rule image_eqI [rotated]) simp
    with assms show ?thesis by simp
  qed (simp_all add: linear_probe_def hash1_home probe_loop_scan Inr)
qed

lemma getitem_state: "snd (getitem t key) = t"
proof -
  obtain r t1 where lp: "linear_probe t (fst key) (Some (snd key)) False = (r, t1)"
    by (cases "linear_probe t (fst key) (Some (snd key)) False")
  with linear_probe_lookup_state [of t "fst key" "Some (snd key)"] have "t1 = t" by simp
  with lp show ?thesis
    by (simp add: getitem_def split: sum.splits position.splits option.splits)
qed

lemma getitem_present:
  assumes "probe_inv (array t)" "(k1, tbl) \<in> ents (array t)"
  shows "getitem t (k1, k2) =
           ((case map_of (lpt_array tbl) k2 of None \<Rightarrow> Inl KeyError | Some v \<Rightarrow> Inr v), t)"
proof -
  from assms(2) obtain p where p: "p < length (array t)" "array t ! p = Some (k1, tbl)"
    by (auto simp: ents_nth)
  show ?thesis
  proof (cases "index_of k2 (lpt_array tbl)")
    case None
    then have "map_of (lpt_array tbl) k2 = None" by (simp add: index_of_None)
    with None linear_probe_lookup_present(1) [OF assms(1) p, of k2] show ?thesis
      by (simp add: getitem_def lpt_probe_lookup)
  next
    case (Some i)
    with linear_probe_lookup_present(1) [OF assms(1) p, of k2] p index_of_Some [OF Some]
    show ?thesis
      by (simp add: getitem_def lpt_probe_lookup)
  qed
qed

lemma getitem_absent:
  assumes "k1 \<notin> fst ` ents (array t)"
  shows "\<exists>e. getitem t (k1, k2) = (Inl e, t)"
proof -
  from linear_probe_lookup_absent [OF assms, of "Some k2"] obtain e where
    "linear_probe t k1 (Some k2) False = (Inl e, t)" by blast
  then have "getitem t (k1, k2) = (Inl e, t)" by (simp add: getitem_def)
  then show ?thesis by blast
qed

lemma getitem_holds:
  assumes "probe_inv (array t)"
  shows "getitem t (k1, k2) = (Inr v, t) \<longleftrightarrow> holds t k1 k2 v"
proof (cases "k1 \<in> fst ` ents (array t)")
  case True
  then obtain tbl where tbl: "(k1, tbl) \<in> ents (array t)" by force
  note get = getitem_present [OF assms tbl, of k2]
  show ?thesis
  proof
    assume "getitem t (k1, k2) = (Inr v, t)"
    with get have "map_of (lpt_array tbl) k2 = Some v" by (simp split: option.splits)
    with tbl show "holds t k1 k2 v" unfolding holds_def by blast
  next
    assume "holds t k1 k2 v"
    then obtain tbl' where tbl': "(k1, tbl') \<in> ents (array t)"
      "map_of (lpt_array tbl') k2 = Some v" unfolding holds_def by blast
    from uniq_ents [OF probe_inv_uniq [OF assms] tbl'(1) tbl] have "tbl' = tbl" .
    with tbl'(2) get show "getitem t (k1, k2) = (Inr v, t)" by simp
  qed
next
  case False
  from getitem_absent [OF False, of k2] have "getitem t (k1, k2) \<noteq> (Inr v, t)" by auto
  moreover from False have "\<not> holds t k1 k2 v" unfolding holds_def by force
  ultimately show ?thesis by simp
qed

lemma ents_Nil [simp]: "ents [] = {}"
  by (simp add: ents_def)

lemma ents_Cons_None [simp]: "ents (None # A) = ents A"
  by (auto simp: ents_def)

lemma ents_Cons_Some [simp]: "ents (Some e # A) = insert e (ents A)"
  by (auto simp: ents_def)

lemma ents_replicate [simp]: "ents (replicate n None) = {}"
  by (auto simp: ents_def)

lemma probe_inv_replicate: "probe_inv (replicate n None)"
  by (simp add: probe_inv_def placed_None)

lemma uniq_Cons: "uniq (x # A) \<Longrightarrow> uniq A"
  unfolding uniq_def
proof (intro allI impI)
  fix p q e e'
  assume u: "\<forall>p<length (x # A). \<forall>q<length (x # A). \<forall>e e'.
      (x # A) ! p = Some e \<longrightarrow> (x # A) ! q = Some e' \<longrightarrow> fst e = fst e' \<longrightarrow> p = q"
    and "p < length A" "q < length A" "A ! p = Some e" "A ! q = Some e'" "fst e = fst e'"
  with u [rule_format, of "Suc p" "Suc q" e e'] show "p = q" by simp
qed

lemma uniq_ukeys: "uniq A \<Longrightarrow> ukeys A"
proof (induction A)
  case Nil
  then show ?case by simp
next
  case (Cons x A)
  from Cons.prems have u: "uniq A" by (rule uniq_Cons)
  show ?case
  proof (cases x)
    case None
    with Cons.IH [OF u] show ?thesis by simp
  next
    case (Some e)
    have "fst e \<notin> fst ` ents A"
    proof
      assume "fst e \<in> fst ` ents A"
      then obtain e' where "e' \<in> ents A" "fst e' = fst e" by auto
      then obtain p where p: "p < length A" "A ! p = Some e'" by (auto simp: ents_nth)
      with Cons.prems [unfolded uniq_def, rule_format, of 0 "Suc p" e e'] Some \<open>fst e' = fst e\<close>
      show False by simp
    qed
    with Cons.IH [OF u] Some show ?thesis by simp
  qed
qed

text \<open>The invariant under the writes the operations make.\<close>

lemma probe_inv_fill:
  assumes inv: "probe_inv A" and q: "q < length A"
    and h: "home (length A) k = Inr h" and s: "scan A k h (length A) = Free q"
  shows "probe_inv (A[q := Some (k, v)])"
  unfolding probe_inv_def
proof (intro allI impI)
  let ?A' = "A[q := Some (k, v)]"
  fix p
  assume p: "p < length ?A'"
  from s have none: "A ! q = None" by (rule scan_Free_None)
  show "placed ?A' p"
  proof (cases "p = q")
    case True
    from scan_fill_Free [OF q s, of v] h q True show ?thesis
      by (intro placedI [where e = "(k, v)" and h = h]) simp_all
  next
    case False
    show ?thesis
    proof (cases "A ! p")
      case None
      with False show ?thesis by (simp add: placed_None)
    next
      case (Some e)
      from inv p have "placed A p" by (simp add: probe_inv_def)
      with Some obtain h' where h': "home (length A) (fst e) = Inr h'"
        "scan A (fst e) h' (length A) = Match p" by (blast dest: placedD)
      from scan_fill_Match [OF none h'(2)] h'(1) Some False show ?thesis
        by (intro placedI [where e = e and h = h']) simp_all
    qed
  qed
qed

lemma probe_inv_replace:
  assumes inv: "probe_inv A" and q: "q < length A" and old: "A ! q = Some (k, old)"
  shows "probe_inv (A[q := Some (k, new)])"
  unfolding probe_inv_def
proof (intro allI impI)
  let ?A' = "A[q := Some (k, new)]"
  fix p
  assume p: "p < length ?A'"
  have keys: "map_option fst (?A' ! r) = map_option fst (A ! r)" if "r < length A" for r
    using that old by (cases "r = q") simp_all
  show "placed ?A' p"
  proof (cases "?A' ! p")
    case None
    then show ?thesis by (rule placed_None)
  next
    case (Some e')
    with keys [of p] p obtain e where e: "A ! p = Some e" "fst e = fst e'"
      by (cases "A ! p") auto
    from inv p have "placed A p" by (simp add: probe_inv_def)
    with e obtain h where h: "home (length A) (fst e) = Inr h"
      "scan A (fst e) h (length A) = Match p" by (blast dest: placedD)
    from p have "0 < length A" by (cases A) auto
    with h(1) have hn: "h < length A" by (rule home_lt)
    have "scan ?A' (fst e) h (length A) = scan A (fst e) h (length A)"
      using hn by (intro scan_keys_cong keys) simp_all
    with h e Some show ?thesis
      by (intro placedI [where e = e' and h = h]) simp_all
  qed
qed

lemma probe_inv_present:
  assumes "probe_inv A" "k \<in> fst ` ents A"
  shows "\<exists>h p. home (length A) k = Inr h \<and> scan A k h (length A) = Match p"
proof -
  from assms(2) obtain tbl where "(k, tbl) \<in> ents A" by force
  then obtain p where "p < length A" "A ! p = Some (k, tbl)" by (auto simp: ents_nth)
  from probe_inv_scan [OF assms(1) this] show ?thesis by blast
qed

text \<open>Re-insertion into the new array during a resize.\<close>

lemma rehash_loop_inv:
  fixes t :: "'v dkt"
  assumes "probe_inv (array t)" "rehash_loop old t = (r, t')"
  shows "probe_inv (array t') \<and> length (array t') = length (array t) \<and>
         TABLE_SIZES t' = TABLE_SIZES t \<and> internal_sizes t' = internal_sizes t \<and>
         size_index t' = size_index t \<and> count t' = count t \<and>
         ents (array t') \<subseteq> ents (array t) \<union> ents old \<and>
         (r = Inr () \<longrightarrow> ukeys old \<longrightarrow> fst ` ents old \<inter> fst ` ents (array t) = {} \<longrightarrow>
            ents (array t') = ents (array t) \<union> ents old)"
  using assms
proof (induction old t rule: rehash_loop.induct)
  case (1 t)
  then show ?case by simp
next
  case (2 rest t)
  then show ?case by simp
next
  case (3 key tbl rest t)
  let ?A = "array t"
  let ?n = "length ?A"
  note inv = "3.prems"(1)
  show ?case
  proof (cases "home ?n key")
    case (Inl e)
    with "3.prems" show ?thesis
      by (auto simp: linear_probe_single_insert table_size_def)
  next
    case (Inr h)
    show ?thesis
    proof (cases "scan ?A key h ?n")
      case Exhausted
      with Inr "3.prems" show ?thesis
        by (auto simp: linear_probe_single_insert table_size_def)
    next
      case (Free q)
      have n0: "0 < ?n"
      proof (rule ccontr)
        assume "\<not> 0 < ?n"
        then have "?n = 0" by simp
        with Free show False by simp
      qed
      with Inr have hn: "h < ?n" by (rule home_lt)
      from scan_Free_lt [OF hn Free] have q: "q < ?n" .
      from Free have none: "?A ! q = None" by (rule scan_Free_None)
      let ?t1 = "t\<lparr>array := ?A[q := Some (key, tbl)]\<rparr>"
      have lp: "linear_probe t key None True = (Inr (Single q), t)"
        using Inr Free by (simp add: linear_probe_single_insert table_size_def)
      with "3.prems"(2) have run: "rehash_loop rest ?t1 = (r, t')" by simp
      have inv1: "probe_inv (array ?t1)"
        using probe_inv_fill [OF inv q Inr Free, of tbl] by simp
      have en1: "ents (array ?t1) = insert (key, tbl) (ents ?A)"
        using ents_fill [OF q none, of "(key, tbl)"] by simp
      from "3.IH" [OF lp [symmetric] refl refl inv1 run] en1
      have ih: "probe_inv (array t')" "length (array t') = ?n"
        "TABLE_SIZES t' = TABLE_SIZES t \<and> internal_sizes t' = internal_sizes t \<and>
         size_index t' = size_index t \<and> count t' = count t"
        "ents (array t') \<subseteq> insert (key, tbl) (ents ?A) \<union> ents rest"
        "r = Inr () \<longrightarrow> ukeys rest \<longrightarrow>
           fst ` ents rest \<inter> fst ` insert (key, tbl) (ents ?A) = {} \<longrightarrow>
           ents (array t') = insert (key, tbl) (ents ?A) \<union> ents rest"
        by simp_all
      note ih(3)
      moreover from ih(4) have "ents (array t') \<subseteq> ents ?A \<union> ents (Some (key, tbl) # rest)"
        by auto
      moreover have "ents (array t') = ents ?A \<union> ents (Some (key, tbl) # rest)"
        if "r = Inr ()" "ukeys (Some (key, tbl) # rest)"
          "fst ` ents (Some (key, tbl) # rest) \<inter> fst ` ents ?A = {}"
      proof -
        from that have "ukeys rest" "fst ` ents rest \<inter> fst ` insert (key, tbl) (ents ?A) = {}"
          by auto
        with ih(5) that(1) show ?thesis by auto
      qed
      ultimately show ?thesis using ih(1,2) by blast
    next
      case (Match q)
      have n0: "0 < ?n"
      proof (rule ccontr)
        assume "\<not> 0 < ?n"
        then have "?n = 0" by simp
        with Match show False by simp
      qed
      with Inr have hn: "h < ?n" by (rule home_lt)
      from scan_Match_key [OF hn Match] obtain old' where
        q: "q < ?n" and old': "?A ! q = Some (key, old')" by blast
      let ?t1 = "t\<lparr>array := ?A[q := Some (key, tbl)]\<rparr>"
      have lp: "linear_probe t key None True = (Inr (Single q), t)"
        using Inr Match by (simp add: linear_probe_single_insert table_size_def)
      with "3.prems"(2) have run: "rehash_loop rest ?t1 = (r, t')" by simp
      have inv1: "probe_inv (array ?t1)"
        using probe_inv_replace [OF inv q old', of tbl] by simp
      have en1: "ents (array ?t1) = insert (key, tbl) (ents ?A - {(key, old')})"
        using ents_replace [OF q old' probe_inv_uniq [OF inv], of tbl] by simp
      from "3.IH" [OF lp [symmetric] refl refl inv1 run] en1
      have ih: "probe_inv (array t')" "length (array t') = ?n"
        "TABLE_SIZES t' = TABLE_SIZES t \<and> internal_sizes t' = internal_sizes t \<and>
         size_index t' = size_index t \<and> count t' = count t"
        "ents (array t') \<subseteq> insert (key, tbl) (ents ?A - {(key, old')}) \<union> ents rest"
        by simp_all
      note ih(3)
      moreover from ih(4) have "ents (array t') \<subseteq> ents ?A \<union> ents (Some (key, tbl) # rest)"
        by auto
      moreover from q old' have "(key, old') \<in> ents ?A" by (auto simp: ents_nth)
      then have "fst ` ents (Some (key, tbl) # rest) \<inter> fst ` ents ?A \<noteq> {}"
        by force
      ultimately show ?thesis using ih(1,2) by blast
    qed
  qed
qed

lemma rehash_inv:
  fixes t :: "'v dkt"
  assumes inv: "probe_inv (array t)" and res: "rehash t = (r, t')"
  shows "probe_inv (array t') \<and> ents (array t') \<subseteq> ents (array t) \<and>
         (r = Inr () \<longrightarrow> ents (array t') = ents (array t)) \<and>
         TABLE_SIZES t' = TABLE_SIZES t \<and> internal_sizes t' = internal_sizes t"
proof (cases "size_index t + 1 \<ge> length (TABLE_SIZES t)")
  case True
  with res have "t' = t\<lparr>size_index := size_index t + 1\<rparr>" "r = Inr ()"
    by (auto simp: rehash_def Let_def)
  with inv show ?thesis by simp
next
  case False
  let ?t0 = "t\<lparr>size_index := size_index t + 1,
                array := ArrayR (TABLE_SIZES t ! (size_index t + 1)), count := 0\<rparr>"
  from False res have run: "rehash_loop (array t) ?t0 = (r, t')"
    by (simp add: rehash_def Let_def)
  have inv0: "probe_inv (array ?t0)" by (simp add: ArrayR_def probe_inv_replicate)
  from rehash_loop_inv [OF inv0 run] uniq_ukeys [OF probe_inv_uniq [OF inv]]
  have "probe_inv (array t')" "TABLE_SIZES t' = TABLE_SIZES t"
    "internal_sizes t' = internal_sizes t"
    "ents (array t') \<subseteq> ents (array t)" "r = Inr () \<longrightarrow> ents (array t') = ents (array t)"
    by (simp_all add: ArrayR_def)
  then show ?thesis by blast
qed

text \<open>The outcomes of the probe that an insertion starts with.\<close>

lemma linear_probe_insert:
  fixes t :: "'v dkt"
  assumes inv: "probe_inv (array t)"
    and res: "linear_probe t k1 (Some k2) True = (r, t1)"
  obtains (Fail) e where "r = Inl e" "t1 = t"
  | (FreshFail) e q where "r = Inl e" "lpt_capacity (internal_sizes t) = 0"
      "q < length (array t)" "array t ! q = None"
      "t1 = t\<lparr>array := (array t)[q := Some (k1, LinearProbeTable (internal_sizes t))]\<rparr>"
      "probe_inv (array t1)"
  | (Found) q p2 sub where "r = Inr (Double q p2)" "t1 = t" "q < length (array t)"
      "array t ! q = Some (k1, sub)" "lpt_linear_probe sub k2 True = Inr p2"
  | (Fresh) q p2 where "r = Inr (Double q p2)" "q < length (array t)" "array t ! q = None"
      "k1 \<notin> fst ` ents (array t)"
      "t1 = t\<lparr>array := (array t)[q := Some (k1, LinearProbeTable (internal_sizes t))]\<rparr>"
      "lpt_linear_probe (LinearProbeTable (internal_sizes t) :: 'v lpt) k2 True = Inr p2"
      "probe_inv (array t1)"
proof (cases "home (table_size t) k1")
  case (Inl e)
  with res have "r = Inl e" "t1 = t" by (simp_all add: linear_probe_def hash1_home)
  then show ?thesis by (rule Fail)
next
  case (Inr h)
  let ?A = "array t"
  let ?n = "length ?A"
  let ?fresh = "LinearProbeTable (internal_sizes t) :: 'v lpt"
  from res Inr have loop: "probe_loop t k1 (Some k2) True h ?n = (r, t1)"
    by (simp add: linear_probe_def hash1_home table_size_def)
  show ?thesis
  proof (cases "scan ?A k1 h ?n")
    case Exhausted
    with loop have "r = Inl FullError" "t1 = t" by (simp_all add: probe_loop_scan)
    then show ?thesis by (rule Fail)
  next
    case (Free q)
    have n0: "0 < ?n"
    proof (rule ccontr)
      assume "\<not> 0 < ?n"
      then have "?n = 0" by simp
      with Free show False by simp
    qed
    with Inr have hn: "h < ?n" by (simp add: table_size_def home_lt)
    from scan_Free_lt [OF hn Free] have q: "q < ?n" .
    from Free have none: "?A ! q = None" by (rule scan_Free_None)
    have absent: "k1 \<notin> fst ` ents ?A"
    proof
      assume "k1 \<in> fst ` ents ?A"
      from probe_inv_present [OF inv this] Inr Free show False
        by (simp add: table_size_def)
    qed
    let ?t1 = "t\<lparr>array := ?A[q := Some (k1, ?fresh)]\<rparr>"
    have inv1: "probe_inv (array ?t1)"
      using probe_inv_fill [OF inv q _ Free, of ?fresh] Inr by (simp add: table_size_def)
    show ?thesis
    proof (cases "lpt_linear_probe ?fresh k2 True")
      case (Inl e)
      with loop Free have r: "r = Inl e" "t1 = ?t1" by (simp_all add: probe_loop_scan)
      from Inl have "lpt_capacity (internal_sizes t) = 0"
        by (auto simp: lpt_linear_probe_def LinearProbeTable_def split: if_splits)
      with r q none inv1 show ?thesis by (intro FreshFail [of e q]) simp_all
    next
      case (Inr p2)
      with loop Free have r: "r = Inr (Double q p2)" "t1 = ?t1"
        by (simp_all add: probe_loop_scan)
      with q none absent Inr inv1 show ?thesis by (intro Fresh [of q p2]) simp_all
    qed
  next
    case (Match q)
    have n0: "0 < ?n"
    proof (rule ccontr)
      assume "\<not> 0 < ?n"
      then have "?n = 0" by simp
      with Match show False by simp
    qed
    with Inr have hn: "h < ?n" by (simp add: table_size_def home_lt)
    from scan_Match_key [OF hn Match] obtain sub where
      q: "q < ?n" and sub: "?A ! q = Some (k1, sub)" by blast
    show ?thesis
    proof (cases "lpt_linear_probe sub k2 True")
      case (Inl e)
      with loop Match sub have "r = Inl e" "t1 = t" by (simp_all add: probe_loop_scan)
      then show ?thesis by (rule Fail)
    next
      case (Inr p2)
      with loop Match sub have "r = Inr (Double q p2)" "t1 = t"
        by (simp_all add: probe_loop_scan)
      with q sub Inr show ?thesis by (intro Found [of q p2 sub]) simp_all
    qed
  qed
qed

lemma setitem_after_probe:
  assumes "linear_probe t k1 (Some k2) True = (Inr (Double q p2), t1)"
    and "array t1 ! q = Some (k1, sub)" and "lpt_setitem sub k2 v = Inr sub'"
  shows "setitem t (k1, k2) v =
     (if 2 * (if lpt_is_empty sub then count t1 + 1 else count t1) > int (length (array t1))
      then rehash (t1\<lparr>count := (if lpt_is_empty sub then count t1 + 1 else count t1),
                       array := (array t1)[q := Some (k1, sub')]\<rparr>)
      else (Inr (), t1\<lparr>count := (if lpt_is_empty sub then count t1 + 1 else count t1),
                       array := (array t1)[q := Some (k1, sub')]\<rparr>))"
  using assms by (simp add: setitem_def Let_def len_def table_size_def)

lemma slot_update_holds:
  assumes inv: "probe_inv A" and q: "q < length A" and old: "A ! q = Some (k1, sub)"
    and m: "map_of (lpt_array sub') = (map_of (lpt_array sub))(k2 \<mapsto> v)"
    and t1: "array t1 = A" and t3: "array t3 = A[q := Some (k1, sub')]"
  shows "holds t3 j1 j2 u \<longleftrightarrow> (if j1 = k1 \<and> j2 = k2 then u = v else holds t1 j1 j2 u)"
proof -
  note u = probe_inv_uniq [OF inv]
  have en: "ents (array t3) = insert (k1, sub') (ents A - {(k1, sub)})"
    using ents_replace [OF q old u, of sub'] t3 by simp
  from q old have mem: "(k1, sub) \<in> ents A" by (auto simp: ents_nth)
  have only: "x = sub" if "(k1, x) \<in> ents A" for x
    using uniq_ents [OF u that mem] .
  show ?thesis
  proof (cases "j1 = k1")
    case True
    have "holds t3 k1 j2 u \<longleftrightarrow> map_of (lpt_array sub') j2 = Some u"
    proof
      assume "holds t3 k1 j2 u"
      then obtain tbl where "(k1, tbl) \<in> insert (k1, sub') (ents A - {(k1, sub)})"
        and mm: "map_of (lpt_array tbl) j2 = Some u" unfolding holds_def en by blast
      then have "tbl = sub' \<or> ((k1, tbl) \<in> ents A \<and> tbl \<noteq> sub)" by blast
      with only have "tbl = sub'" by blast
      with mm show "map_of (lpt_array sub') j2 = Some u" by simp
    next
      assume "map_of (lpt_array sub') j2 = Some u"
      then show "holds t3 k1 j2 u" unfolding holds_def en by blast
    qed
    moreover have "holds t1 k1 j2 u \<longleftrightarrow> map_of (lpt_array sub) j2 = Some u"
    proof
      assume "holds t1 k1 j2 u"
      then obtain tbl where "(k1, tbl) \<in> ents A"
        and mm: "map_of (lpt_array tbl) j2 = Some u" unfolding holds_def t1 by blast
      with only have "tbl = sub" by blast
      with mm show "map_of (lpt_array sub) j2 = Some u" by simp
    next
      assume "map_of (lpt_array sub) j2 = Some u"
      with mem show "holds t1 k1 j2 u" unfolding holds_def t1 by blast
    qed
    ultimately show ?thesis using True m by (auto simp: eq_commute)
  next
    case False
    then have "holds t3 j1 j2 u \<longleftrightarrow> holds t1 j1 j2 u"
      unfolding holds_def en t1 by blast
    with False show ?thesis by simp
  qed
qed

lemma holds_cong: "ents (array a) = ents (array b) \<Longrightarrow> holds a k1 k2 v = holds b k1 k2 v"
  by (simp add: holds_def)

lemma setitem_finish:
  fixes t3 :: "'v dkt"
  assumes inv3: "probe_inv (array t3)"
    and fin: "(if c then rehash t3 else (Inr (), t3)) = (r, t')"
  shows "probe_inv (array t') \<and> TABLE_SIZES t' = TABLE_SIZES t3 \<and>
         internal_sizes t' = internal_sizes t3 \<and> ents (array t') \<subseteq> ents (array t3) \<and>
         (r = Inr () \<longrightarrow> ents (array t') = ents (array t3))"
proof (cases c)
  case True
  with fin have "rehash t3 = (r, t')" by simp
  from rehash_inv [OF inv3 this] show ?thesis by blast
next
  case False
  with fin have "t' = t3" by simp
  with inv3 show ?thesis by simp
qed

text \<open>What an insertion does to the table, whatever its outcome.\<close>

lemma setitem_inv:
  fixes t :: "'v dkt"
  assumes inv: "probe_inv (array t)" and res: "setitem t (k1, k2) v = (r, t')"
  shows "probe_inv (array t') \<and> TABLE_SIZES t' = TABLE_SIZES t \<and>
         internal_sizes t' = internal_sizes t \<and>
         (\<forall>e\<in>ents (array t'). e \<in> ents (array t) \<or> lpt_array (snd e) \<noteq> [] \<or>
            lpt_capacity (internal_sizes t) = 0) \<and>
         (r = Inr () \<longrightarrow>
            (\<forall>j1 j2 u. holds t' j1 j2 u \<longleftrightarrow>
               (if j1 = k1 \<and> j2 = k2 then u = v else holds t j1 j2 u)))"
proof -
  let ?A = "array t"
  obtain r1 t1 where lp: "linear_probe t k1 (Some k2) True = (r1, t1)"
    by (cases "linear_probe t k1 (Some k2) True")
  show ?thesis
  proof (rule linear_probe_insert [OF inv lp])
    fix e assume "r1 = Inl e" "t1 = t"
    with lp res have "r = Inl e" "t' = t" by (simp_all add: setitem_def)
    with inv show ?thesis by simp
  next
    fix e q
    assume a: "r1 = Inl e" "lpt_capacity (internal_sizes t) = 0" "q < length ?A"
      "?A ! q = None"
      "t1 = t\<lparr>array := ?A[q := Some (k1, LinearProbeTable (internal_sizes t))]\<rparr>"
      "probe_inv (array t1)"
    with lp res have "r = Inl e" "t' = t1" by (simp_all add: setitem_def)
    with a show ?thesis by simp
  next
    fix q p2 sub
    assume a: "r1 = Inr (Double q p2)" "t1 = t" "q < length ?A" "?A ! q = Some (k1, sub)"
      "lpt_linear_probe sub k2 True = Inr p2"
    from lpt_setitem_map [OF a(5), of v] obtain sub' where sub':
      "lpt_setitem sub k2 v = Inr sub'"
      "map_of (lpt_array sub') = (map_of (lpt_array sub))(k2 \<mapsto> v)"
      "lpt_array sub' \<noteq> []" by blast
    let ?c = "if lpt_is_empty sub then count t + 1 else count t"
    let ?t3 = "t\<lparr>count := ?c, array := ?A[q := Some (k1, sub')]\<rparr>"
    from lp a(1,2) have lp': "linear_probe t k1 (Some k2) True = (Inr (Double q p2), t)"
      by simp
    from setitem_after_probe [OF lp' a(4) sub'(1)] res
    have fin: "(if 2 * ?c > int (length ?A) then rehash ?t3 else (Inr (), ?t3)) = (r, t')"
      by simp
    have inv3: "probe_inv (array ?t3)"
      using probe_inv_replace [OF inv a(3,4), of sub'] by simp
    have en3: "ents (array ?t3) = insert (k1, sub') (ents ?A - {(k1, sub)})"
      using ents_replace [OF a(3,4) probe_inv_uniq [OF inv], of sub'] by simp
    from setitem_finish [OF inv3 fin]
    have f: "probe_inv (array t')" "TABLE_SIZES t' = TABLE_SIZES t"
      "internal_sizes t' = internal_sizes t" "ents (array t') \<subseteq> ents (array ?t3)"
      "r = Inr () \<longrightarrow> ents (array t') = ents (array ?t3)" by simp_all
    have "holds t' j1 j2 u \<longleftrightarrow> (if j1 = k1 \<and> j2 = k2 then u = v else holds t j1 j2 u)"
      if "r = Inr ()" for j1 j2 u
    proof -
      from that f(5) have "holds t' j1 j2 u = holds ?t3 j1 j2 u" by (intro holds_cong) simp
      also have "\<dots> \<longleftrightarrow> (if j1 = k1 \<and> j2 = k2 then u = v else holds t j1 j2 u)"
        by (rule slot_update_holds [OF inv a(3,4) sub'(2)]) simp_all
      finally show ?thesis .
    qed
    moreover from f(4) en3 sub'(3) have "\<forall>e\<in>ents (array t'). e \<in> ents (array t) \<or>
        lpt_array (snd e) \<noteq> [] \<or> lpt_capacity (internal_sizes t) = 0" by auto
    ultimately show ?thesis using f(1,2,3) by blast
  next
    fix q p2
    let ?fresh = "LinearProbeTable (internal_sizes t) :: 'v lpt"
    assume a: "r1 = Inr (Double q p2)" "q < length ?A" "?A ! q = None"
      "k1 \<notin> fst ` ents ?A"
      "t1 = t\<lparr>array := ?A[q := Some (k1, LinearProbeTable (internal_sizes t))]\<rparr>"
      "lpt_linear_probe ?fresh k2 True = Inr p2"
      "probe_inv (array t1)"
    from lpt_setitem_map [OF a(6), of v] obtain sub' where sub':
      "lpt_setitem ?fresh k2 v = Inr sub'"
      "map_of (lpt_array sub') = (map_of (lpt_array ?fresh))(k2 \<mapsto> v)"
      "lpt_array sub' \<noteq> []" by blast
    from a(2,5) have q1: "q < length (array t1)" and slot: "array t1 ! q = Some (k1, ?fresh)"
      by simp_all
    let ?c = "if lpt_is_empty ?fresh then count t1 + 1 else count t1"
    let ?t3 = "t1\<lparr>count := ?c, array := (array t1)[q := Some (k1, sub')]\<rparr>"
    from lp a(1) have lp': "linear_probe t k1 (Some k2) True = (Inr (Double q p2), t1)"
      by simp
    from setitem_after_probe [OF lp' slot sub'(1)] res
    have fin: "(if 2 * ?c > int (length (array t1)) then rehash ?t3 else (Inr (), ?t3)) = (r, t')"
      by simp
    have inv3: "probe_inv (array ?t3)"
      using probe_inv_replace [OF a(7) q1 slot, of sub'] by simp
    have en1: "ents (array t1) = insert (k1, ?fresh) (ents ?A)"
      using ents_fill [OF a(2,3), of "(k1, ?fresh)"] a(5) by simp
    have en3: "ents (array ?t3) = insert (k1, sub') (ents (array t1) - {(k1, ?fresh)})"
      using ents_replace [OF q1 slot probe_inv_uniq [OF a(7)], of sub'] by simp
    from setitem_finish [OF inv3 fin] a(5)
    have f: "probe_inv (array t')" "TABLE_SIZES t' = TABLE_SIZES t"
      "internal_sizes t' = internal_sizes t" "ents (array t') \<subseteq> ents (array ?t3)"
      "r = Inr () \<longrightarrow> ents (array t') = ents (array ?t3)" by simp_all
    have same: "holds t1 j1 j2 u = holds t j1 j2 u" for j1 j2 u
      unfolding holds_def en1 by (auto simp: LinearProbeTable_def)
    have "holds t' j1 j2 u \<longleftrightarrow> (if j1 = k1 \<and> j2 = k2 then u = v else holds t j1 j2 u)"
      if "r = Inr ()" for j1 j2 u
    proof -
      from that f(5) have "holds t' j1 j2 u = holds ?t3 j1 j2 u" by (intro holds_cong) simp
      also have "\<dots> \<longleftrightarrow> (if j1 = k1 \<and> j2 = k2 then u = v else holds t1 j1 j2 u)"
        by (rule slot_update_holds [OF a(7) q1 slot sub'(2)]) simp_all
      finally show ?thesis by (simp add: same)
    qed
    moreover from f(4) en3 en1 sub'(3) have "\<forall>e\<in>ents (array t'). e \<in> ents (array t) \<or>
        lpt_array (snd e) \<noteq> [] \<or> lpt_capacity (internal_sizes t) = 0" by auto
    ultimately show ?thesis using f(1,2,3) by blast
  qed
qed

lemma slot_replace_holds:
  assumes inv: "probe_inv A" and q: "q < length A" and old: "A ! q = Some (k1, sub)"
    and t1: "array t1 = A" and t3: "array t3 = A[q := Some (k1, sub')]"
  shows "holds t3 j1 j2 u \<longleftrightarrow>
           (if j1 = k1 then map_of (lpt_array sub') j2 = Some u else holds t1 j1 j2 u)"
    and "holds t1 k1 j2 u \<longleftrightarrow> map_of (lpt_array sub) j2 = Some u"
proof -
  note u = probe_inv_uniq [OF inv]
  have en: "ents (array t3) = insert (k1, sub') (ents A - {(k1, sub)})"
    using ents_replace [OF q old u, of sub'] t3 by simp
  from q old have mem: "(k1, sub) \<in> ents A" by (auto simp: ents_nth)
  have only: "x = sub" if "(k1, x) \<in> ents A" for x
    using uniq_ents [OF u that mem] .
  have h3: "holds t3 k1 j2 u \<longleftrightarrow> map_of (lpt_array sub') j2 = Some u"
  proof
    assume "holds t3 k1 j2 u"
    then obtain tbl where "(k1, tbl) \<in> insert (k1, sub') (ents A - {(k1, sub)})"
      and mm: "map_of (lpt_array tbl) j2 = Some u" unfolding holds_def en by blast
    then have "tbl = sub' \<or> ((k1, tbl) \<in> ents A \<and> tbl \<noteq> sub)" by blast
    with only have "tbl = sub'" by blast
    with mm show "map_of (lpt_array sub') j2 = Some u" by simp
  next
    assume "map_of (lpt_array sub') j2 = Some u"
    then show "holds t3 k1 j2 u" unfolding holds_def en by blast
  qed
  show "holds t1 k1 j2 u \<longleftrightarrow> map_of (lpt_array sub) j2 = Some u"
  proof
    assume "holds t1 k1 j2 u"
    then obtain tbl where "(k1, tbl) \<in> ents A"
      and mm: "map_of (lpt_array tbl) j2 = Some u" unfolding holds_def t1 by blast
    with only have "tbl = sub" by blast
    with mm show "map_of (lpt_array sub) j2 = Some u" by simp
  next
    assume "map_of (lpt_array sub) j2 = Some u"
    with mem show "holds t1 k1 j2 u" unfolding holds_def t1 by blast
  qed
  show "holds t3 j1 j2 u \<longleftrightarrow>
          (if j1 = k1 then map_of (lpt_array sub') j2 = Some u else holds t1 j1 j2 u)"
  proof (cases "j1 = k1")
    case True
    with h3 show ?thesis by simp
  next
    case False
    then have "holds t3 j1 j2 u \<longleftrightarrow> holds t1 j1 j2 u"
      unfolding holds_def en t1 by blast
    with False show ?thesis by simp
  qed
qed

lemma slot_vacate_holds:
  assumes inv: "probe_inv A" and q: "q < length A" and old: "A ! q = Some (k1, sub)"
    and t1: "array t1 = A" and t4: "ents (array t4) = ents (A[q := None])"
  shows "holds t4 j1 j2 u \<longleftrightarrow> j1 \<noteq> k1 \<and> holds t1 j1 j2 u"
proof -
  note u = probe_inv_uniq [OF inv]
  have en: "ents (array t4) = ents A - {(k1, sub)}"
    using ents_vacate [OF q old u] t4 by simp
  from q old have mem: "(k1, sub) \<in> ents A" by (auto simp: ents_nth)
  have only: "x = sub" if "(k1, x) \<in> ents A" for x
    using uniq_ents [OF u that mem] .
  show ?thesis
  proof (cases "j1 = k1")
    case True
    have "\<not> holds t4 k1 j2 u"
    proof
      assume "holds t4 k1 j2 u"
      then obtain tbl where "(k1, tbl) \<in> ents A" "tbl \<noteq> sub"
        unfolding holds_def en by blast
      with only show False by blast
    qed
    with True show ?thesis by simp
  next
    case False
    then have "holds t4 j1 j2 u \<longleftrightarrow> holds t1 j1 j2 u"
      unfolding holds_def en t1 by blast
    with False show ?thesis by simp
  qed
qed

lemma uniq_vacate: "uniq A \<Longrightarrow> uniq (A[q := None])"
  unfolding uniq_def
proof (intro allI impI)
  fix p p' e e'
  assume u: "\<forall>p<length A. \<forall>q<length A. \<forall>e e'.
      A ! p = Some e \<longrightarrow> A ! q = Some e' \<longrightarrow> fst e = fst e' \<longrightarrow> p = q"
    and p: "p < length (A[q := None])" "p' < length (A[q := None])"
    and e: "A[q := None] ! p = Some e" "A[q := None] ! p' = Some e'" and k: "fst e = fst e'"
  from p e have "p \<noteq> q" "p' \<noteq> q" by auto
  with e have "A ! p = Some e" "A ! p' = Some e'" by simp_all
  with u [rule_format, of p p' e e'] p k show "p = p'" by simp
qed

lemma hashable_vacate: "hashable A \<Longrightarrow> hashable (A[q := None])"
  unfolding hashable_def
proof (intro allI impI)
  fix e
  assume h: "\<forall>e. Some e \<in> set A \<longrightarrow> (\<exists>h. home (length A) (fst e) = Inr h)"
    and "Some e \<in> set (A[q := None])"
  then have "Some e \<in> insert None (set A)" using set_update_subset_insert by fastforce
  then have "Some e \<in> set A" by simp
  with h have "\<exists>h. home (length A) (fst e) = Inr h" by blast
  then show "\<exists>h. home (length (A[q := None])) (fst e) = Inr h" by simp
qed

text \<open>Vacating a slot and repairing the cluster behind it.\<close>

lemma vacate_repair:
  fixes t2 :: "'v dkt"
  assumes inv: "probe_inv (array t2)" and p: "p < length (array t2)"
  shows "\<exists>t'. repair (t2\<lparr>array := (array t2)[p := None], count := c\<rparr>)
                ((p + 1) mod length (array t2)) = Some (Inr (), t') \<and>
              probe_inv (array t') \<and> ents (array t') = ents ((array t2)[p := None]) \<and>
              length (array t') = length (array t2) \<and>
              TABLE_SIZES t' = TABLE_SIZES t2 \<and> internal_sizes t' = internal_sizes t2"
proof -
  let ?A = "array t2"
  let ?n = "length ?A"
  let ?t4 = "t2\<lparr>array := ?A[p := None], count := c\<rparr>"
  let ?w = "(p + 1) mod ?n"
  have "uniq (array ?t4)" using uniq_vacate [OF probe_inv_uniq [OF inv]] by simp
  moreover have "hashable (array ?t4)"
    using hashable_vacate [OF probe_inv_hashable [OF inv]] by simp
  moreover have "weak_inv (array ?t4) ?w"
    using weak_inv_vacate [OF probe_inv_weak [OF inv] p] by simp
  moreover have "?w < length (array ?t4)" using next_lt [OF p] by simp
  moreover have "?n - 1 < length (array ?t4)" using p by simp
  moreover have "array ?t4 ! ((?w + (?n - 1)) mod length (array ?t4)) = None"
    using step_back [OF p] p by simp
  ultimately have "walk_ok ?t4 ?w (?n - 1)" unfolding walk_ok_def by blast
  from repair_total [OF this] obtain t' where t': "repair ?t4 ?w = Some (Inr (), t')"
    "repaired ?t4 t'" by blast
  from t'(2) have r: "probe_inv (array t')" "ents (array t') = ents (array ?t4)"
    "length (array t') = length (array ?t4)"
    and eq: "t' = ?t4\<lparr>array := array t'\<rparr>" by (simp_all add: repaired_def)
  from arg_cong [OF eq, of TABLE_SIZES] arg_cong [OF eq, of internal_sizes]
  have "TABLE_SIZES t' = TABLE_SIZES t2" "internal_sizes t' = internal_sizes t2" by simp_all
  with t'(1) r show ?thesis by simp
qed

lemma delitem_vacating:
  assumes "linear_probe t k1 (Some k2) False = (Inr (Double p i), t)"
    and "array t ! p = Some (k1, sub)" and "lpt_delitem sub k2 = Inr sub'"
    and "lpt_array sub' = []"
    and "linear_probe (t\<lparr>array := (array t)[p := Some (k1, sub')]\<rparr>) k1 None False =
           (Inr (Single p), t\<lparr>array := (array t)[p := Some (k1, sub')]\<rparr>)"
  shows "delitem t (k1, k2) =
           repair (t\<lparr>array := (array t)[p := None], count := count t - 1\<rparr>)
             ((p + 1) mod length (array t))"
  using assms by (simp add: delitem_def Let_def lpt_is_empty_def table_size_def)

lemma delitem_keeping:
  assumes "linear_probe t k1 (Some k2) False = (Inr (Double p i), t)"
    and "array t ! p = Some (k1, sub)" and "lpt_delitem sub k2 = Inr sub'"
    and "lpt_array sub' \<noteq> []"
  shows "delitem t (k1, k2) = Some (Inr (), t\<lparr>array := (array t)[p := Some (k1, sub')]\<rparr>)"
  using assms by (simp add: delitem_def Let_def lpt_is_empty_def)

text \<open>What a deletion does to the table, whatever its outcome.\<close>

lemma delitem_inv:
  fixes t :: "'v dkt"
  assumes inv: "probe_inv (array t)"
  shows "\<exists>r t'. delitem t (k1, k2) = Some (r, t') \<and> probe_inv (array t') \<and>
           length (array t') = length (array t) \<and>
           TABLE_SIZES t' = TABLE_SIZES t \<and> internal_sizes t' = internal_sizes t \<and>
           (\<forall>e\<in>ents (array t'). e \<in> ents (array t) \<or> lpt_array (snd e) \<noteq> []) \<and>
           (if \<exists>v. holds t k1 k2 v
            then r = Inr () \<and>
              (\<forall>j1 j2 u. holds t' j1 j2 u \<longleftrightarrow> \<not> (j1 = k1 \<and> j2 = k2) \<and> holds t j1 j2 u)
            else t' = t \<and> (\<exists>e. r = Inl e))"
proof (cases "k1 \<in> fst ` ents (array t)")
  case False
  from linear_probe_lookup_absent [OF False, of "Some k2"] obtain e where
    "linear_probe t k1 (Some k2) False = (Inl e, t)" by blast
  then have "delitem t (k1, k2) = Some (Inl e, t)" by (simp add: delitem_def)
  moreover from False have "\<not> (\<exists>v. holds t k1 k2 v)" unfolding holds_def by force
  ultimately show ?thesis using inv by simp
next
  case True
  let ?A = "array t"
  from True obtain sub where "(k1, sub) \<in> ents ?A" by force
  then obtain p where p: "p < length ?A" and slot: "?A ! p = Some (k1, sub)"
    by (auto simp: ents_nth)
  have hk: "holds t k1 j2 u \<longleftrightarrow> map_of (lpt_array sub) j2 = Some u" for j2 u
    by (rule slot_replace_holds(2)
        [where ?t3.0 = "t\<lparr>array := (array t)[p := Some (k1, sub)]\<rparr>" and sub' = sub,
          OF inv p slot refl]) simp
  note lp = linear_probe_lookup_present(1) [OF inv p slot, of k2]
  show ?thesis
  proof (cases "map_of (lpt_array sub) k2")
    case None
    then have "index_of k2 (lpt_array sub) = None" by (simp add: index_of_None)
    with lp have "linear_probe t k1 (Some k2) False = (Inl KeyError, t)"
      by (simp add: lpt_probe_lookup)
    then have "delitem t (k1, k2) = Some (Inl KeyError, t)" by (simp add: delitem_def)
    moreover from None hk have "\<not> (\<exists>v. holds t k1 k2 v)" by simp
    ultimately show ?thesis using inv by simp
  next
    case (Some v0)
    then obtain i where "index_of k2 (lpt_array sub) = Some i"
      by (cases "index_of k2 (lpt_array sub)") (auto simp: index_of_None)
    with lp have lp': "linear_probe t k1 (Some k2) False = (Inr (Double p i), t)"
      by (simp add: lpt_probe_lookup)
    define sub' where "sub' = sub\<lparr>lpt_array := filter (\<lambda>kv. fst kv \<noteq> k2) (lpt_array sub)\<rparr>"
    from Some have del: "lpt_delitem sub k2 = Inr sub'"
      by (simp add: lpt_delitem_map sub'_def)
    have m: "map_of (lpt_array sub') = (map_of (lpt_array sub))(k2 := None)"
      by (simp add: sub'_def map_of_remove)
    let ?t2 = "t\<lparr>array := ?A[p := Some (k1, sub')]\<rparr>"
    have inv2: "probe_inv (array ?t2)"
      using probe_inv_replace [OF inv p slot, of sub'] by simp
    have h2: "holds ?t2 j1 j2 u \<longleftrightarrow>
        (if j1 = k1 then map_of (lpt_array sub') j2 = Some u else holds t j1 j2 u)" for j1 j2 u
      by (rule slot_replace_holds(1) [OF inv p slot refl]) simp
    from Some hk have present: "\<exists>v. holds t k1 k2 v" by blast
    show ?thesis
    proof (cases "lpt_array sub' = []")
      case False
      from delitem_keeping [OF lp' slot del False]
      have d: "delitem t (k1, k2) = Some (Inr (), ?t2)" .
      have "holds ?t2 j1 j2 u \<longleftrightarrow> \<not> (j1 = k1 \<and> j2 = k2) \<and> holds t j1 j2 u" for j1 j2 u
        using h2 [of j1 j2 u] hk [of j2 u] m by auto
      moreover have "\<forall>e\<in>ents (array ?t2). e \<in> ents ?A \<or> lpt_array (snd e) \<noteq> []"
        using ents_replace [OF p slot probe_inv_uniq [OF inv], of sub'] False by auto
      ultimately show ?thesis using d inv2 present by simp
    next
      case True
      have p2: "p < length (array ?t2)" and slot2: "array ?t2 ! p = Some (k1, sub')"
        using p by simp_all
      from linear_probe_lookup_present(2) [OF inv2 p2 slot2, of False]
      have lp2: "linear_probe ?t2 k1 None False = (Inr (Single p), ?t2)" .
      from delitem_vacating [OF lp' slot del True lp2]
      have d: "delitem t (k1, k2) =
          repair (t\<lparr>array := ?A[p := None], count := count t - 1\<rparr>) ((p + 1) mod length ?A)" .
      from vacate_repair [OF inv2 p2, of "count t - 1"] obtain t' where
        t': "repair (t\<lparr>array := ?A[p := None], count := count t - 1\<rparr>)
               ((p + 1) mod length ?A) = Some (Inr (), t')"
        "probe_inv (array t')" "ents (array t') = ents (?A[p := None])"
        "TABLE_SIZES t' = TABLE_SIZES t" "internal_sizes t' = internal_sizes t"
        "length (array t') = length ?A"
        by auto
      have h4: "holds t' j1 j2 u \<longleftrightarrow> j1 \<noteq> k1 \<and> holds t j1 j2 u" for j1 j2 u
        by (rule slot_vacate_holds [OF inv p slot refl t'(3)])
      have gone: "\<not> holds t k1 j2 u" if "j2 \<noteq> k2" for j2 u
      proof -
        from True have "map_of (lpt_array sub') j2 = None" by simp
        with m that have "map_of (lpt_array sub) j2 = None" by simp
        with hk show ?thesis by simp
      qed
      have "holds t' j1 j2 u \<longleftrightarrow> \<not> (j1 = k1 \<and> j2 = k2) \<and> holds t j1 j2 u" for j1 j2 u
        using h4 [of j1 j2 u] gone [of j2 u] by auto
      moreover have "\<forall>e\<in>ents (array t'). e \<in> ents ?A \<or> lpt_array (snd e) \<noteq> []"
        using ents_vacate [OF p slot probe_inv_uniq [OF inv]] t'(3) by auto
      ultimately show ?thesis using d t'(1,2,4,5,6) present by simp
    qed
  qed
qed

section \<open>The claims\<close>

text \<open>
  C10. For every string key, \<open>hash1\<close> on a table of capacity at least 2 returns a
  position below the capacity, and so does \<open>hash2\<close> for a nested table of capacity at
  least 2. On a table of capacity 1, hashing a non-empty key raises ZeroDivisionError
  instead of returning a position.
\<close>

theorem hash_in_range:
  "(2 \<le> table_size t \<longrightarrow> (\<exists>h. hash1 t key = Inr h \<and> h < table_size t)) \<and>
   (2 \<le> sub_table_size \<longrightarrow>
      (\<exists>h. hash2 key2 sub_table_size = Inr h \<and> h < sub_table_size)) \<and>
   (table_size t1 = 1 \<and> key1 \<noteq> [] \<longrightarrow> hash1 t1 key1 = Inl ZeroDivisionError)"
proof (intro conjI impI)
  assume big: "2 \<le> table_size t"
  from hash_loop_range [OF big, of key 0 31417] big
  show "\<exists>h. hash1 t key = Inr h \<and> h < table_size t"
    by (auto simp: hash1_def)
next
  assume big: "2 \<le> sub_table_size"
  from hash_loop_range [OF big, of key2 0 31417] big
  show "\<exists>h. hash2 key2 sub_table_size = Inr h \<and> h < sub_table_size"
    by (auto simp: hash2_def)
next
  assume "table_size t1 = 1 \<and> key1 \<noteq> []"
  then show "hash1 t1 key1 = Inl ZeroDivisionError"
    by (simp add: hash1_def hash_loop_capacity_one)
qed

theorem hash_in_range_witness:
  "2 \<le> table_size \<lparr>TABLE_SIZES = [5], internal_sizes = [5], size_index = 0,
                      array = ArrayR 5 :: (string \<times> nat lpt) option list, count = 0\<rparr> \<and>
   (\<exists>h. hash1 \<lparr>TABLE_SIZES = [5], internal_sizes = [5], size_index = 0,
                 array = ArrayR 5 :: (string \<times> nat lpt) option list, count = 0\<rparr> ''Tim'' = Inr h \<and>
        h < table_size \<lparr>TABLE_SIZES = [5], internal_sizes = [5], size_index = 0,
                         array = ArrayR 5 :: (string \<times> nat lpt) option list, count = 0\<rparr>) \<and>
   (2::nat) \<le> 5 \<and> (\<exists>h. hash2 ''Jen'' 5 = Inr h \<and> h < 5) \<and>
   table_size \<lparr>TABLE_SIZES = [1], internal_sizes = [5], size_index = 0,
                 array = ArrayR 1 :: (string \<times> nat lpt) option list, count = 0\<rparr> = 1 \<and>
   ''Tim'' \<noteq> [] \<and>
   hash1 \<lparr>TABLE_SIZES = [1], internal_sizes = [5], size_index = 0,
           array = ArrayR 1 :: (string \<times> nat lpt) option list, count = 0\<rparr> ''Tim'' =
     Inl ZeroDivisionError"
  using hash_in_range [of
      "\<lparr>TABLE_SIZES = [5], internal_sizes = [5], size_index = 0,
        array = ArrayR 5 :: (string \<times> nat lpt) option list, count = 0\<rparr>" "''Tim''" 5 "''Jen''"
      "\<lparr>TABLE_SIZES = [1], internal_sizes = [5], size_index = 0,
        array = ArrayR 1 :: (string \<times> nat lpt) option list, count = 0\<rparr>" "''Tim''"]
  by (simp add: table_size_def ArrayR_def)

end
